theory Spec2Isabelle
  imports Complex_Main "HOL-Library.AList"
begin

section \<open>JavaScript numbers\<close>

text \<open>
  The tracker computes on JavaScript numbers, which are IEEE 754 doubles. A number is
  modelled as \<open>NaN\<close>, one of the two infinities, or a finite value \<open>Fin x\<close> with \<open>x\<close>
  the real it stands for; the two zeros are one value. An arithmetic operation on finite
  values gives the double nearest to the exact result, or an infinity when the exact
  result is beyond the range of the doubles.
\<close>

datatype jsnum = NaN | NegInf | Fin real | PosInf

text \<open>\<open>a > b\<close>: false as soon as one side is \<open>NaN\<close>.\<close>

fun js_gt :: "jsnum \<Rightarrow> jsnum \<Rightarrow> bool" where
  "js_gt (Fin x) (Fin y) = (y < x)"
| "js_gt PosInf (Fin y) = True"
| "js_gt PosInf NegInf = True"
| "js_gt (Fin x) NegInf = True"
| "js_gt _ _ = False"

text \<open>\<open>a < b\<close>.\<close>

definition js_lt :: "jsnum \<Rightarrow> jsnum \<Rightarrow> bool" where
  "js_lt a b = js_gt b a"

text \<open>
  The finite doubles are the reals \<open>m * 2 ^ e\<close> with \<open>|m| < 2 ^ 53\<close> and
  \<open>-1074 \<le> e \<le> 971\<close>; the largest is \<open>max_double\<close>. In the normal form of a double
  \<open>|m|\<close> is at least \<open>2 ^ 52\<close>, or \<open>e\<close> is \<open>-1074\<close>; \<open>even_double\<close> says that the
  \<open>m\<close> of the normal form is even.
\<close>

definition max_double :: real where
  "max_double = (2 ^ 53 - 1) * 2 ^ 971"

definition is_double :: "real \<Rightarrow> bool" where
  "is_double d = (\<exists>m e :: int. \<bar>m\<bar> < 2 ^ 53 \<and> - 1074 \<le> e \<and> e \<le> 971 \<and> d = of_int m * 2 powi e)"

definition even_double :: "real \<Rightarrow> bool" where
  "even_double d =
     (\<exists>m e :: int. even m \<and> \<bar>m\<bar> < 2 ^ 53 \<and> - 1074 \<le> e \<and> e \<le> 971
        \<and> (2 ^ 52 \<le> \<bar>m\<bar> \<or> e = - 1074) \<and> d = of_int m * 2 powi e)"

text \<open>
  Rounding to nearest, ties to even: \<open>rnd r\<close> is a double nearest to \<open>r\<close>, and the even
  one of the two when \<open>r\<close> lies half way between two doubles. A result at or beyond
  \<open>overflow_bound\<close>, which lies half a unit in the last place above \<open>max_double\<close>,
  becomes an infinity.
\<close>

definition nearest :: "real \<Rightarrow> real \<Rightarrow> bool" where
  "nearest r d = (is_double d \<and> (\<forall>d'. is_double d' \<longrightarrow> \<bar>r - d\<bar> \<le> \<bar>r - d'\<bar>))"

definition rnd :: "real \<Rightarrow> real" where
  "rnd r = (if \<exists>d. nearest r d \<and> even_double d then SOME d. nearest r d \<and> even_double d
            else SOME d. nearest r d)"

definition overflow_bound :: real where
  "overflow_bound = 2 ^ 1024 - 2 ^ 970"

definition to_double :: "real \<Rightarrow> jsnum" where
  "to_double r = (if overflow_bound \<le> r then PosInf
                  else if r \<le> - overflow_bound then NegInf
                  else Fin (rnd r))"

text \<open>\<open>a + b\<close>.\<close>

fun js_add :: "jsnum \<Rightarrow> jsnum \<Rightarrow> jsnum" where
  "js_add NaN _ = NaN"
| "js_add _ NaN = NaN"
| "js_add PosInf NegInf = NaN"
| "js_add NegInf PosInf = NaN"
| "js_add PosInf _ = PosInf"
| "js_add _ PosInf = PosInf"
| "js_add NegInf _ = NegInf"
| "js_add _ NegInf = NegInf"
| "js_add (Fin x) (Fin y) = to_double (x + y)"

text \<open>\<open>a / 2\<close>.\<close>

fun js_half :: "jsnum \<Rightarrow> jsnum" where
  "js_half (Fin x) = to_double (x / 2)"
| "js_half a = a"

text \<open>\<open>Math.max(a, b)\<close> and \<open>Math.min(a, b)\<close>: \<open>NaN\<close> when an argument is \<open>NaN\<close>.\<close>

definition js_max :: "jsnum \<Rightarrow> jsnum \<Rightarrow> jsnum" where
  "js_max a b = (if a = NaN \<or> b = NaN then NaN else if js_gt a b then a else b)"

definition js_min :: "jsnum \<Rightarrow> jsnum \<Rightarrow> jsnum" where
  "js_min a b = (if a = NaN \<or> b = NaN then NaN else if js_lt a b then a else b)"

text \<open>\<open>isFinite\<close>.\<close>

fun is_finite :: "jsnum \<Rightarrow> bool" where
  "is_finite (Fin x) = True"
| "is_finite _ = False"

text \<open>Truthiness of a number: \<open>0\<close> and \<open>NaN\<close> are falsy.\<close>

fun truthy_num :: "jsnum \<Rightarrow> bool" where
  "truthy_num NaN = False"
| "truthy_num (Fin x) = (x \<noteq> 0)"
| "truthy_num _ = True"

section \<open>Bars and array slices\<close>

text \<open>
  One parsed CSV line. \<open>date\<close> is the \<open>Date\<close> object, modelled by what
  \<open>toISOString()\<close> gives on it: \<open>Some s\<close> is the ISO string, \<open>None\<close> is an invalid
  date, on which \<open>toISOString()\<close> throws a RangeError. The field \<open>open\<close> of the source is
  \<open>bar_open\<close> here.
\<close>

record bar =
  date :: "string option"
  bar_open :: jsnum
  high :: jsnum
  low :: jsnum
  close :: jsnum

text \<open>
  \<open>Array.prototype.slice(start, end)\<close> on integer arguments: a negative argument counts
  from the end of the array, both are clamped to the array, and the result is empty when
  the start is not before the end.
\<close>

definition slice :: "'a list \<Rightarrow> int \<Rightarrow> int \<Rightarrow> 'a list" where
  "slice xs start fin =
     (let len = int (length xs);
          k = (if start < 0 then max (len + start) 0 else min start len);
          final = (if fin < 0 then max (len + fin) 0 else min fin len)
      in take (nat (final - k)) (drop (nat k) xs))"

section \<open>The Ichimoku calculator\<close>

record ichimoku =
  tenkan :: jsnum
  kijun :: jsnum
  spanA :: jsnum
  spanB :: jsnum

text \<open>
  The body of the \<open>for\<close> loop of \<open>getHL\<close>, on the pair \<open>(h, l)\<close>, and the loop itself
  from \<open>h = -Infinity\<close>, \<open>l = Infinity\<close>.
\<close>

definition getHL_step :: "jsnum \<times> jsnum \<Rightarrow> bar \<Rightarrow> jsnum \<times> jsnum" where
  "getHL_step hl d =
     (let h = (if js_gt (high d) (fst hl) then high d else fst hl);
          l = (if js_lt (low d) (snd hl) then low d else snd hl)
      in (h, l))"

definition getHL :: "bar list \<Rightarrow> jsnum \<times> jsnum" where
  "getHL sl = foldl getHL_step (NegInf, PosInf) sl"

text \<open>\<open>(hl.h + hl.l) / 2\<close>, written out at each use in the source.\<close>

definition midpoint :: "jsnum \<times> jsnum \<Rightarrow> jsnum" where
  "midpoint hl = js_half (js_add (fst hl) (snd hl))"

definition getIchimokuAt :: "bar list \<Rightarrow> int \<Rightarrow> ichimoku option" where
  "getIchimokuAt data index =
     (if index < 52 + 25 then None
      else
        let tenkanHL = getHL (slice data (index - 8) (index + 1));
            kijunHL = getHL (slice data (index - 25) (index + 1));
            t26 = getHL (slice data (index - 25 - 9) (index - 25 + 1));
            k26 = getHL (slice data (index - 25 - 26) (index - 25 + 1));
            b52 = getHL (slice data (index - 25 - 52) (index - 25 + 1))
        in Some \<lparr> tenkan = midpoint tenkanHL,
                  kijun = midpoint kijunHL,
                  spanA = js_half (js_add (midpoint t26) (midpoint k26)),
                  spanB = midpoint b52 \<rparr>)"

section \<open>Signal evaluation\<close>

text \<open>
  The \<open>if\<close>/\<open>else if\<close> of \<open>run\<close> that sets \<open>signal\<close>: the empty string stands
  for no signal, and the snapshot publishes \<open>signal || 'NEUTRAL'\<close>.
\<close>

definition evaluate_signal :: "jsnum \<Rightarrow> ichimoku \<Rightarrow> string" where
  "evaluate_signal price latestIchimoku =
     (if js_gt (tenkan latestIchimoku) (kijun latestIchimoku)
         \<and> js_gt price (js_max (spanA latestIchimoku) (spanB latestIchimoku)) then ''BUY''
      else if js_lt (tenkan latestIchimoku) (kijun latestIchimoku)
         \<and> js_lt price (js_min (spanA latestIchimoku) (spanB latestIchimoku)) then ''SELL''
      else [])"

definition or_NEUTRAL :: "string \<Rightarrow> string" where
  "or_NEUTRAL signal = (if signal \<noteq> [] then signal else ''NEUTRAL'')"

section \<open>Strings: split and join\<close>

text \<open>
  \<open>s.split(c)\<close> for a separator of one character, and \<open>parts.join(sep)\<close>. The result
  of a split is never empty: the split of the empty string is the list of one empty
  string.
\<close>

fun split_js :: "char \<Rightarrow> string \<Rightarrow> string list" where
  "split_js c [] = [[]]"
| "split_js c (x # xs) =
     (if x = c then [] # split_js c xs
      else (case split_js c xs of [] \<Rightarrow> [[x]] | p # ps \<Rightarrow> (x # p) # ps))"

fun join_js :: "string \<Rightarrow> string list \<Rightarrow> string" where
  "join_js sep [] = []"
| "join_js sep [p] = p"
| "join_js sep (p # q # ps) = p @ sep @ join_js sep (q # ps)"

section \<open>The alert history file\<close>

text \<open>
  A value stored in the history object, as far as its truthiness goes. The tracker
  itself only ever stores \<open>true\<close>.
\<close>

datatype json = JNull | JBool bool | JNum real | JStr string | JOther

fun truthy :: "json \<Rightarrow> bool" where
  "truthy JNull = False"
| "truthy (JBool b) = b"
| "truthy (JNum r) = (r \<noteq> 0)"
| "truthy (JStr s) = (s \<noteq> [])"
| "truthy JOther = True"

text \<open>
  The parsed history object: its own properties in their order. The file is \<open>None\<close>
  when it does not exist. A file that does not parse to an object is outside the model.
\<close>

type_synonym history = "(string \<times> json) list"

text \<open>
  The website data. The fields of the source that share a name with a field of a bar or
  of the tuple carry a prefix here (\<open>o_\<close>, \<open>h_\<close>, \<open>s_\<close>). \<open>None\<close> in an indicator
  field of an entry is \<open>null\<close>. The data are modelled as the object handed to
  \<open>JSON.stringify\<close>.
\<close>

record ichimoku_out =
  o_tenkan :: jsnum
  o_kijun :: jsnum
  senkouA :: jsnum
  senkouB :: jsnum

record entry =
  h_date :: string
  h_open :: jsnum
  h_high :: jsnum
  h_low :: jsnum
  h_close :: jsnum
  h_price :: jsnum
  h_tenkan :: "jsnum option"
  h_kijun :: "jsnum option"
  h_spanA :: "jsnum option"
  h_spanB :: "jsnum option"

record snapshot =
  s_ticker :: string
  s_price :: jsnum
  s_date :: string
  s_signal :: string
  signalHistory :: "(string \<times> string) list"
  s_ichimoku :: ichimoku_out
  s_history :: "entry list"

text \<open>
  What a run does to the outside, in the order it does it: a write of the history file,
  a call of \<open>sendEmail\<close> (for the signal, the ticker and the price that make its subject
  and body), a write of the website data.
\<close>

datatype effect =
    WriteHistory history
  | SendEmail string string jsnum
  | WriteWebsite snapshot

text \<open>\<open>date.split('T')[0]\<close> and the key \<open>`${signal}-${date.split('T')[0]}`\<close>.\<close>

definition day_of :: "string \<Rightarrow> string" where
  "day_of dateStr = hd (split_js CHR ''T'' dateStr)"

definition alert_key :: "string \<Rightarrow> string \<Rightarrow> string" where
  "alert_key signal dateStr = signal @ ''-'' @ day_of dateStr"

text \<open>
  \<open>history[key]\<close> read for its truthiness: a missing property is \<open>undefined\<close>. The
  keys looked up hold a \<open>-\<close>, so none of them names a property inherited from
  \<open>Object.prototype\<close>.
\<close>

definition has_key :: "history \<Rightarrow> string \<Rightarrow> bool" where
  "has_key history key = (case map_of history key of None \<Rightarrow> False | Some v \<Rightarrow> truthy v)"

text \<open>
  \<open>checkAlertHistory(signal, date)\<close> on the state of the history file: the value
  returned, the file afterwards, and the writes made. The parameter \<open>date\<close> is
  \<open>dateStr\<close> here, \<open>date\<close> being the field of a bar.
\<close>

definition checkAlertHistory ::
  "string \<Rightarrow> string \<Rightarrow> history option \<Rightarrow> bool \<times> history option \<times> effect list" where
  "checkAlertHistory signal dateStr file =
     (let created = (case file of None \<Rightarrow> [WriteHistory []] | Some h \<Rightarrow> []);
          history = (case file of None \<Rightarrow> [] | Some h \<Rightarrow> h);
          key = alert_key signal dateStr
      in if has_key history key then (True, Some history, created)
         else
           let history' = AList.update key (JBool True) history
           in (False, Some history', created @ [WriteHistory history']))"

section \<open>The run\<close>

text \<open>
  The \<open>if (signal)\<close> block of \<open>run\<close>: the history file afterwards and the effects, in
  order. \<open>sendEmail\<close> is called after \<open>checkAlertHistory\<close> has returned, that is after
  the history file has been written.
\<close>

definition alert_step ::
  "string \<Rightarrow> string \<Rightarrow> string \<Rightarrow> jsnum \<Rightarrow> history option \<Rightarrow> history option \<times> effect list" where
  "alert_step tick signal dateStr price file =
     (if signal \<noteq> [] then
        (case checkAlertHistory signal dateStr file of
           (fired, file', writes) \<Rightarrow>
             if \<not> fired then (file', writes @ [SendEmail signal tick price])
             else (file', writes))
      else (file, []))"

text \<open>
  The function mapped over \<open>Object.keys(historyData)\<close>: the type is the part before the
  first \<open>-\<close>, the date is the other parts joined by \<open>-\<close> again.
\<close>

definition parse_key :: "string \<Rightarrow> string \<times> string" where
  "parse_key key =
     (let parts = split_js CHR ''-'' key;
          type = hd parts;
          dStr = join_js ''-'' (tl parts)
      in (type, dStr))"

definition signalsArray :: "history option \<Rightarrow> (string \<times> string) list" where
  "signalsArray file =
     (let historyData = (case file of None \<Rightarrow> [] | Some h \<Rightarrow> h)
      in map parse_key (map fst historyData))"

text \<open>\<open>indicators?.tenkan || null\<close>, after the optional chaining: \<open>None\<close> is \<open>null\<close>.\<close>

definition or_null :: "jsnum option \<Rightarrow> jsnum option" where
  "or_null v = (case v of None \<Rightarrow> None | Some x \<Rightarrow> if truthy_num x then Some x else None)"

text \<open>
  The function mapped over \<open>data.slice(-40)\<close>, for the bar \<open>d\<close> at position \<open>i\<close> of
  the slice. It throws (\<open>None\<close>) on an invalid date.
\<close>

definition display_entry :: "bar list \<Rightarrow> bar \<Rightarrow> nat \<Rightarrow> entry option" where
  "display_entry data d i =
     (let absIdx = int (length data) - 40 + int i;
          indicators = getIchimokuAt data absIdx
      in case date d of
           None \<Rightarrow> None
         | Some dateStr \<Rightarrow>
             Some \<lparr> h_date = day_of dateStr,
                    h_open = bar_open d,
                    h_high = high d,
                    h_low = low d,
                    h_close = close d,
                    h_price = close d,
                    h_tenkan = or_null (map_option tenkan indicators),
                    h_kijun = or_null (map_option kijun indicators),
                    h_spanA = or_null (map_option spanA indicators),
                    h_spanB = or_null (map_option spanB indicators) \<rparr>)"

text \<open>A \<open>map\<close> whose function may throw: the first throw ends it.\<close>

fun map_throwing :: "('a \<Rightarrow> 'b option) \<Rightarrow> 'a list \<Rightarrow> 'b list option" where
  "map_throwing f [] = Some []"
| "map_throwing f (x # xs) =
     (case f x of
        None \<Rightarrow> None
      | Some y \<Rightarrow> (case map_throwing f xs of None \<Rightarrow> None | Some ys \<Rightarrow> Some (y # ys)))"

definition displayHistory :: "bar list \<Rightarrow> entry list option" where
  "displayHistory data =
     (let sl = slice data (- 40) (int (length data))
      in map_throwing (\<lambda>(d, i). display_entry data d i) (zip sl [0 ..< length sl]))"

text \<open>
  The lines of \<open>run\<close> from \<open>latestIdx\<close> to the choice of the signal, for a series of at
  least 80 bars: the signal, the price, the ISO date and the tuple, or \<open>None\<close> when one
  of the two throws is reached (an invalid latest date, a missing tuple).
\<close>

definition latest :: "bar list \<Rightarrow> (string \<times> jsnum \<times> string \<times> ichimoku) option" where
  "latest data =
     (let latestIdx = int (length data) - 1;
          latestIchimoku = getIchimokuAt data latestIdx;
          price = close (data ! nat latestIdx)
      in case date (data ! nat latestIdx) of
           None \<Rightarrow> None
         | Some dateStr \<Rightarrow>
             (case latestIchimoku of
                None \<Rightarrow> None
              | Some ich \<Rightarrow> Some (evaluate_signal price ich, price, dateStr, ich)))"

datatype outcome = Returned | Exit1

text \<open>
  The body of \<open>run\<close> once the series is fetched, on the state of the history file: how
  the run ends and the effects it has had by then, in order. A throw is caught by the
  \<open>catch\<close> of \<open>run\<close>, which exits with status 1. Failures of the file system and of
  the mail transport are outside the model.
\<close>

definition run_body :: "string \<Rightarrow> history option \<Rightarrow> bar list \<Rightarrow> outcome \<times> effect list" where
  "run_body tick file data =
     (if length data < 80 then (Returned, [])
      else
        case latest data of
          None \<Rightarrow> (Exit1, [])
        | Some (signal, price, dateStr, ich) \<Rightarrow>
            (case alert_step tick signal dateStr price file of
               (file', effs) \<Rightarrow>
                 (case displayHistory data of
                    None \<Rightarrow> (Exit1, effs)
                  | Some dh \<Rightarrow>
                      (Returned,
                       effs @ [WriteWebsite
                         \<lparr> s_ticker = tick,
                           s_price = price,
                           s_date = dateStr,
                           s_signal = or_NEUTRAL signal,
                           signalHistory = signalsArray file',
                           s_ichimoku = \<lparr> o_tenkan = tenkan ich, o_kijun = kijun ich,
                                          senkouA = spanA ich, senkouB = spanB ich \<rparr>,
                           s_history = dh \<rparr>]))))"

text \<open>\<open>run\<close>: the fetch throws (\<open>None\<close>) or gives the series.\<close>

definition run_trace ::
  "string \<Rightarrow> history option \<Rightarrow> bar list option \<Rightarrow> outcome \<times> effect list" where
  "run_trace tick file fetched =
     (case fetched of None \<Rightarrow> (Exit1, []) | Some data \<Rightarrow> run_body tick file data)"

section \<open>The world around the runs\<close>

record world =
  historyFile :: "history option"
  websiteFile :: "snapshot option"
  outbox :: "(string \<times> string \<times> jsnum) list"

fun apply_effect :: "effect \<Rightarrow> world \<Rightarrow> world" where
  "apply_effect (WriteHistory h) w = w\<lparr>historyFile := Some h\<rparr>"
| "apply_effect (SendEmail signal tick price) w = w\<lparr>outbox := outbox w @ [(signal, tick, price)]\<rparr>"
| "apply_effect (WriteWebsite s) w = w\<lparr>websiteFile := Some s\<rparr>"

definition replay :: "effect list \<Rightarrow> world \<Rightarrow> world" where
  "replay effs w = fold apply_effect effs w"

text \<open>A whole run, and a run that crashes after its first \<open>k\<close> effects.\<close>

definition run :: "string \<Rightarrow> world \<Rightarrow> bar list option \<Rightarrow> outcome \<times> world" where
  "run tick w fetched =
     (case run_trace tick (historyFile w) fetched of (out, effs) \<Rightarrow> (out, replay effs w))"

definition crashed_run :: "nat \<Rightarrow> string \<Rightarrow> world \<Rightarrow> bar list option \<Rightarrow> world" where
  "crashed_run k tick w fetched = replay (take k (snd (run_trace tick (historyFile w) fetched))) w"

fun is_send :: "effect \<Rightarrow> bool" where
  "is_send (SendEmail signal tick price) = True"
| "is_send _ = False"

fun is_history_write :: "effect \<Rightarrow> bool" where
  "is_history_write (WriteHistory h) = True"
| "is_history_write _ = False"

fun is_website_write :: "effect \<Rightarrow> bool" where
  "is_website_write (WriteWebsite s) = True"
| "is_website_write _ = False"

text \<open>
  The signal and the calendar day of the latest bar of a fetched series, when the run
  reaches the \<open>if (signal)\<close> block with a signal.
\<close>

definition run_key :: "bar list option \<Rightarrow> (string \<times> string) option" where
  "run_key fetched =
     (case fetched of
        None \<Rightarrow> None
      | Some data \<Rightarrow>
          if length data < 80 then None
          else
            (case latest data of
               None \<Rightarrow> None
             | Some (signal, price, dateStr, ich) \<Rightarrow>
                 if signal \<noteq> [] then Some (signal, day_of dateStr) else None))"

text \<open>
  Over a sequence of runs, each on the world the run before left: the number of calls of
  \<open>sendEmail\<close> made by the runs whose latest bar has the signal and day \<open>k\<close>, and the
  world after the last run.
\<close>

fun sends_for :: "string \<times> string \<Rightarrow> string \<Rightarrow> world \<Rightarrow> bar list option list \<Rightarrow> nat" where
  "sends_for k tick w [] = 0"
| "sends_for k tick w (f # fs) =
     (if run_key f = Some k
      then length (filter is_send (snd (run_trace tick (historyFile w) f))) else 0)
     + sends_for k tick (snd (run tick w f)) fs"

fun runs :: "string \<Rightarrow> world \<Rightarrow> bar list option list \<Rightarrow> world" where
  "runs tick w [] = w"
| "runs tick w (f # fs) = runs tick (snd (run tick w f)) fs"

section \<open>Derived notions and sample series\<close>

text \<open>The content of the history file as \<open>checkAlertHistory\<close> and \<open>run\<close> read it.\<close>

definition file_history :: "history option \<Rightarrow> history" where
  "file_history file = (case file of None \<Rightarrow> [] | Some h \<Rightarrow> h)"

text \<open>\<open>history[key]\<close> is truthy in the file.\<close>

definition ledger_has :: "history option \<Rightarrow> string \<Rightarrow> bool" where
  "ledger_has file key = has_key (file_history file) key"

text \<open>The history file after a sequence of calls of \<open>checkAlertHistory\<close>.\<close>

definition record_events :: "history option \<Rightarrow> (string \<times> string) list \<Rightarrow> history option" where
  "record_events file evs = fold (\<lambda>(S, d) f. fst (snd (checkAlertHistory S d f))) evs file"

text \<open>What an effect does to the history file alone.\<close>

fun hist_effect :: "effect \<Rightarrow> history option \<Rightarrow> history option" where
  "hist_effect (WriteHistory h) hf = Some h"
| "hist_effect _ hf = hf"

text \<open>A number is finite and at most \<open>b\<close> in magnitude; both values of a pair are.\<close>

definition bounded_by :: "real \<Rightarrow> jsnum \<Rightarrow> bool" where
  "bounded_by b a = (case a of Fin x \<Rightarrow> \<bar>x\<bar> \<le> b | _ \<Rightarrow> False)"

definition bounded_pair :: "real \<Rightarrow> jsnum \<times> jsnum \<Rightarrow> bool" where
  "bounded_pair b hl = (bounded_by b (fst hl) \<and> bounded_by b (snd hl))"

text \<open>
  Span A as the specification words it: the average of the 9-bar midpoint over
  \<open>series[i-34 .. i-26]\<close> and the 26-bar midpoint over \<open>series[i-51 .. i-26]\<close>. It is
  compared with the \<open>spanA\<close> of \<open>getIchimokuAt\<close> below.
\<close>

definition spec_spanA :: "bar list \<Rightarrow> int \<Rightarrow> jsnum" where
  "spec_spanA series i =
     js_half (js_add (midpoint (getHL (slice series (i - 34) (i - 26 + 1))))
                     (midpoint (getHL (slice series (i - 51) (i - 26 + 1)))))"

text \<open>
  Sample bars and series: the double \<open>2 ^ 1023\<close>, about 8.99e307; a bar with all four
  prices equal to \<open>p\<close>; 78 bars at 100
  with one high of 200 at index 52; 71 bars at 100 followed by 9 bars at 150; 80 bars at
  zero. The world before any run has no history file, no website data and no mail sent.
\<close>

definition huge :: real where
  "huge = 2 ^ 1023"

definition flat :: "real \<Rightarrow> bar" where
  "flat p = \<lparr> date = Some ''2024-03-01T00:00:00.000Z'', bar_open = Fin p, high = Fin p,
              low = Fin p, close = Fin p \<rparr>"

definition spike_series :: "bar list" where
  "spike_series = replicate 52 (flat 100) @ [(flat 100)\<lparr>high := Fin 200\<rparr>] @ replicate 25 (flat 100)"

definition buy_series :: "bar list" where
  "buy_series = replicate 71 (flat 100) @ replicate 9 (flat 150)"

definition zero_series :: "bar list" where
  "zero_series = replicate 80 (flat 0)"

definition fresh_world :: world where
  "fresh_world = \<lparr> historyFile = None, websiteFile = None, outbox = [] \<rparr>"

text \<open>The entry of the trailing window whose four indicator fields are \<open>null\<close>.\<close>

definition null_entry :: entry where
  "null_entry = \<lparr> h_date = ''2024-03-01'', h_open = Fin 0, h_high = Fin 0, h_low = Fin 0,
       h_close = Fin 0, h_price = Fin 0, h_tenkan = None, h_kijun = None, h_spanA = None,
       h_spanB = None \<rparr>"

section \<open>Doubles: range, rounding and overflow\<close>

lemma pow971: "(2::real) ^ 971 = 2 * 2 ^ 970"
proof -
  have "(971::nat) = Suc 970" by simp
  then show ?thesis by (simp only: power_Suc)
qed

lemma pow1024: "(2::real) ^ 1024 = 2 ^ 54 * 2 ^ 970"
proof -
  have "(1024::nat) = 54 + 970" by simp
  then show ?thesis by (simp only: power_add)
qed

lemma pow1023: "(2::real) ^ 1023 = 2 ^ 53 * 2 ^ 970"
proof -
  have "(1023::nat) = 53 + 970" by simp
  then show ?thesis by (simp only: power_add)
qed

lemma half_ulp_ge_1: "1 \<le> (2::real) ^ 970"
  by (rule one_le_power) simp

lemma max_double_alt: "max_double = (2 ^ 54 - 2) * 2 ^ 970"
proof -
  have "(2 ^ 53 - 1) * (2 * P) = (2 ^ 54 - 2) * P" for P :: real
    by (simp add: algebra_simps)
  then show ?thesis unfolding max_double_def pow971 .
qed

lemma overflow_bound_alt: "overflow_bound = (2 ^ 54 - 1) * 2 ^ 970"
proof -
  have "2 ^ 54 * P - P = (2 ^ 54 - 1) * P" for P :: real
    by (simp add: algebra_simps)
  then show ?thesis unfolding overflow_bound_def pow1024 .
qed

lemma max_below_overflow: "max_double < overflow_bound"
proof -
  have "(2 ^ 54 - 2) * P < (2 ^ 54 - 1) * P" if "1 \<le> P" for P :: real
    using that by (simp add: algebra_simps)
  from this [OF half_ulp_ge_1] show ?thesis
    unfolding max_double_alt overflow_bound_alt .
qed

lemma int_range_le_max: "9007199254740991 \<le> max_double"
proof -
  have "9007199254740991 \<le> (2 ^ 54 - 2) * P" if "1 \<le> P" for P :: real
  proof -
    have "(2 ^ 54 - 2) * 1 \<le> (2 ^ 54 - 2) * P"
      using that by (intro mult_left_mono) simp_all
    then show ?thesis by simp
  qed
  from this [OF half_ulp_ge_1] show ?thesis unfolding max_double_alt .
qed

lemma max_double_pos: "0 \<le> max_double"
  using int_range_le_max by linarith

lemma huge_overflows: "overflow_bound \<le> huge + huge"
proof -
  have "(2 ^ 54 - 1) * P \<le> 2 ^ 53 * P + 2 ^ 53 * P" if "1 \<le> P" for P :: real
    using that by (simp add: algebra_simps)
  from this [OF half_ulp_ge_1] show ?thesis
    unfolding huge_def overflow_bound_alt pow1023 .
qed

lemma huge_le_max: "huge \<le> max_double"
proof -
  have "2 ^ 53 * P \<le> (2 ^ 54 - 2) * P" if "1 \<le> P" for P :: real
    using that by (simp add: algebra_simps)
  from this [OF half_ulp_ge_1] show ?thesis
    unfolding huge_def max_double_alt pow1023 .
qed

lemma finite_doubles: "finite {d. is_double d}"
proof -
  let ?f = "\<lambda>p :: int \<times> int. (of_int (fst p) :: real) * 2 powi snd p"
  let ?S = "{- (2 ^ 53) .. 2 ^ 53} \<times> {- 1074 .. 971 :: int}"
  have "{d. is_double d} \<subseteq> ?f ` ?S"
  proof
    fix d assume "d \<in> {d. is_double d}"
    then obtain m e :: int where me: "\<bar>m\<bar> < 2 ^ 53" "- 1074 \<le> e" "e \<le> 971"
      and d: "d = of_int m * 2 powi e" unfolding is_double_def by blast
    from me have "(m, e) \<in> ?S" by auto
    moreover have "d = ?f (m, e)" using d by simp
    ultimately show "d \<in> ?f ` ?S" by (rule rev_image_eqI)
  qed
  moreover have "finite (?f ` ?S)"
    by (intro finite_imageI finite_cartesian_product) simp_all
  ultimately show ?thesis by (rule finite_subset)
qed

lemma is_double_0: "is_double 0"
  unfolding is_double_def by (rule exI [of _ 0], rule exI [of _ 0]) simp

lemma ex_nearest: "\<exists>d. nearest r d"
proof -
  let ?D = "{d. is_double d}"
  have ne: "?D \<noteq> {}" using is_double_0 by auto
  have fin: "finite ((\<lambda>d. \<bar>r - d\<bar>) ` ?D)" using finite_doubles by simp
  have "Min ((\<lambda>d. \<bar>r - d\<bar>) ` ?D) \<in> (\<lambda>d. \<bar>r - d\<bar>) ` ?D"
    using ne fin by (intro Min_in) simp_all
  then obtain d where d: "is_double d" and m: "\<bar>r - d\<bar> = Min ((\<lambda>d. \<bar>r - d\<bar>) ` ?D)" by auto
  have "\<bar>r - d\<bar> \<le> \<bar>r - d'\<bar>" if "is_double d'" for d'
    unfolding m using that fin by (intro Min_le) simp_all
  with d show ?thesis unfolding nearest_def by blast
qed

lemma rnd_nearest: "nearest r (rnd r)"
proof (cases "\<exists>d. nearest r d \<and> even_double d")
  case True
  then have "nearest r (SOME d. nearest r d \<and> even_double d)
      \<and> even_double (SOME d. nearest r d \<and> even_double d)" by (rule someI_ex)
  moreover from True have "rnd r = (SOME d. nearest r d \<and> even_double d)"
    unfolding rnd_def by (rule if_P)
  ultimately show ?thesis by simp
next
  case False
  from ex_nearest have "nearest r (SOME d. nearest r d)" by (rule someI_ex)
  moreover from False have "rnd r = (SOME d. nearest r d)"
    unfolding rnd_def by (rule if_not_P)
  ultimately show ?thesis by simp
qed

lemma nearest_double: "is_double d \<Longrightarrow> nearest d d' \<Longrightarrow> d' = d"
  unfolding nearest_def by force

lemma rnd_double:
  assumes "is_double d"
  shows "rnd d = d"
  using assms rnd_nearest [of d] by (rule nearest_double)

lemma is_double_minus: "is_double d \<Longrightarrow> is_double (- d)"
proof -
  assume "is_double d"
  then obtain m e :: int where "\<bar>m\<bar> < 2 ^ 53" "- 1074 \<le> e" "e \<le> 971" "d = of_int m * 2 powi e"
    unfolding is_double_def by blast
  then have "\<bar>- m\<bar> < 2 ^ 53 \<and> - 1074 \<le> e \<and> e \<le> 971 \<and> - d = of_int (- m) * 2 powi e"
    by simp
  then show ?thesis unfolding is_double_def by blast
qed

lemma rnd_bound:
  assumes "is_double b" "\<bar>r\<bar> \<le> b"
  shows "\<bar>rnd r\<bar> \<le> b"
proof -
  from rnd_nearest [of r] have n: "\<And>d'. is_double d' \<Longrightarrow> \<bar>r - rnd r\<bar> \<le> \<bar>r - d'\<bar>"
    unfolding nearest_def by blast
  from n [OF assms(1)] n [OF is_double_minus [OF assms(1)]] assms(2)
  show ?thesis by linarith
qed

lemma is_double_int: "\<bar>n\<bar> < 9007199254740992 \<Longrightarrow> is_double (of_int n)"
  unfolding is_double_def by (rule exI [of _ n], rule exI [of _ 0]) simp

lemma is_double_max: "is_double max_double"
proof -
  have h: "max_double = of_int (2 ^ 53 - 1) * 2 powi 971"
    unfolding max_double_def
    by (simp only: power_int_numeral of_int_diff of_int_power of_int_numeral of_int_1)
  show ?thesis
    unfolding is_double_def
  proof (rule exI [of _ "2 ^ 53 - 1"], rule exI [of _ 971], intro conjI)
    show "\<bar>2 ^ 53 - 1 :: int\<bar> < 2 ^ 53" by simp
    show "- 1074 \<le> (971::int)" by simp
    show "(971::int) \<le> 971" by simp
    show "max_double = of_int (2 ^ 53 - 1) * 2 powi 971" by (rule h)
  qed
qed

lemma is_double_half_max: "is_double (max_double / 2)"
proof -
  have "(2 ^ 53 - 1) * (2 * P) / 2 = (2 ^ 53 - 1) * P" for P :: real by simp
  then have "max_double / 2 = (2 ^ 53 - 1) * 2 ^ 970"
    unfolding max_double_def pow971 .
  then have h: "max_double / 2 = of_int (2 ^ 53 - 1) * 2 powi 970"
    by (simp only: power_int_numeral of_int_diff of_int_power of_int_numeral of_int_1)
  show ?thesis
    unfolding is_double_def
  proof (rule exI [of _ "2 ^ 53 - 1"], rule exI [of _ 970], intro conjI)
    show "\<bar>2 ^ 53 - 1 :: int\<bar> < 2 ^ 53" by simp
    show "- 1074 \<le> (970::int)" by simp
    show "(970::int) \<le> 971" by simp
    show "max_double / 2 = of_int (2 ^ 53 - 1) * 2 powi 970" by (rule h)
  qed
qed

lemma to_double_small:
  assumes "\<bar>r\<bar> \<le> max_double"
  shows "to_double r = Fin (rnd r)"
proof -
  have "\<not> overflow_bound \<le> r" "\<not> r \<le> - overflow_bound"
    using assms max_below_overflow by linarith+
  then show ?thesis by (simp add: to_double_def)
qed

lemma to_double_int:
  assumes "\<bar>n\<bar> < 9007199254740992"
  shows "to_double (of_int n) = Fin (of_int n)"
proof -
  from assms have "\<bar>n\<bar> \<le> 9007199254740991" by simp
  then have "(of_int \<bar>n\<bar> :: real) \<le> of_int 9007199254740991"
    by (simp only: of_int_le_iff)
  then have "\<bar>of_int n :: real\<bar> \<le> 9007199254740991" by simp
  with int_range_le_max have "\<bar>of_int n :: real\<bar> \<le> max_double" by linarith
  then show ?thesis
    by (simp add: to_double_small rnd_double is_double_int [OF assms])
qed

lemma to_double_numeral [simp]:
  "(numeral k :: int) < 9007199254740992 \<Longrightarrow> to_double (numeral k) = Fin (numeral k)"
  using to_double_int [of "numeral k"] by simp

lemma to_double_0 [simp]: "to_double 0 = Fin 0"
  using to_double_int [of 0] by simp

lemma to_double_huge: "to_double (huge + huge) = PosInf"
  using huge_overflows by (simp add: to_double_def)

section \<open>The calculator: comparisons, the scan and the slices\<close>

lemma js_gt_irrefl [simp]: "\<not> js_gt a a"
  by (cases a) simp_all

lemma js_gt_asym: "js_gt a b \<Longrightarrow> \<not> js_gt b a"
  by (cases a; cases b) simp_all

lemma js_max_Fin: "js_max (Fin x) (Fin y) = Fin (max x y)"
  by (simp add: js_max_def max_def)

lemma js_min_Fin: "js_min (Fin x) (Fin y) = Fin (min x y)"
  by (simp add: js_min_def js_lt_def min_def)

lemma getHL_step_idem: "getHL_step (getHL_step hl d) d = getHL_step hl d"
  by (simp add: getHL_step_def js_lt_def Let_def)

lemma foldl_getHL_step_replicate:
  "foldl getHL_step hl (replicate n d) = (if n = 0 then hl else getHL_step hl d)"
proof (induction n arbitrary: hl)
  case 0
  show ?case by simp
next
  case (Suc n)
  show ?case by (simp add: Suc.IH getHL_step_idem)
qed

lemma slice_inside:
  "0 \<le> s \<Longrightarrow> s \<le> e \<Longrightarrow> e \<le> int (length xs) \<Longrightarrow>
   slice xs s e = take (nat (e - s)) (drop (nat s) xs)"
  by (simp add: slice_def Let_def min_def)

lemma map_slice: "map f (slice xs s e) = slice (map f xs) s e"
  by (simp add: slice_def Let_def take_map drop_map)

lemma slice_nonempty:
  "0 \<le> s \<Longrightarrow> s < e \<Longrightarrow> e \<le> int (length xs) \<Longrightarrow> slice xs s e \<noteq> []"
  by (simp add: slice_inside)

lemma set_slice: "set (slice xs s e) \<subseteq> set xs"
  unfolding slice_def Let_def
  by (meson set_take_subset set_drop_subset subset_trans)

text \<open>The scan reads only the highs and the lows.\<close>

lemma foldl_getHL_step_cong:
  "map high xs = map high ys \<Longrightarrow> map low xs = map low ys \<Longrightarrow>
   foldl getHL_step hl xs = foldl getHL_step hl ys"
proof (induction xs arbitrary: ys hl)
  case Nil
  then show ?case by simp
next
  case (Cons x xs)
  then obtain y ys' where ys: "ys = y # ys'" by (cases ys) auto
  with Cons.prems have hd: "high x = high y" "low x = low y"
    and tl: "map high xs = map high ys'" "map low xs = map low ys'" by auto
  have "getHL_step hl x = getHL_step hl y" by (simp add: getHL_step_def hd)
  with Cons.IH [OF tl] ys show ?case by simp
qed

lemma getHL_slice_cong:
  assumes "map high xs = map high ys" "map low xs = map low ys"
  shows "getHL (slice xs s e) = getHL (slice ys s e)"
  unfolding getHL_def
  by (rule foldl_getHL_step_cong) (simp_all add: map_slice assms)

text \<open>
  On bars whose highs and lows are within a bound the scan of a non-empty slice ends on
  two values within it; within half of \<open>max_double\<close> a midpoint does not overflow.
\<close>

lemma bounded_finite: "bounded_by b a \<Longrightarrow> is_finite a"
  by (cases a) (simp_all add: bounded_by_def)

lemma getHL_step_bounded_first:
  assumes "bounded_by b (high d)" "bounded_by b (low d)"
  shows "bounded_pair b (getHL_step (NegInf, PosInf) d)"
  using assms
  by (cases "high d"; cases "low d") (simp_all add: getHL_step_def bounded_pair_def bounded_by_def js_lt_def)

lemma getHL_step_bounded_keep:
  assumes "bounded_by b (high d)" "bounded_by b (low d)" "bounded_pair b hl"
  shows "bounded_pair b (getHL_step hl d)"
  using assms by (simp add: getHL_step_def bounded_pair_def)

lemma foldl_getHL_step_bounded:
  "\<forall>d \<in> set xs. bounded_by b (high d) \<and> bounded_by b (low d) \<Longrightarrow> bounded_pair b hl \<Longrightarrow>
   bounded_pair b (foldl getHL_step hl xs)"
  by (induction xs arbitrary: hl) (simp_all add: getHL_step_bounded_keep)

lemma getHL_bounded:
  assumes "xs \<noteq> []" "\<forall>d \<in> set xs. bounded_by b (high d) \<and> bounded_by b (low d)"
  shows "bounded_pair b (getHL xs)"
proof -
  obtain d ds where xs: "xs = d # ds" using assms(1) by (cases xs) auto
  have "bounded_pair b (getHL_step (NegInf, PosInf) d)"
    using assms(2) xs by (simp add: getHL_step_bounded_first)
  then show ?thesis
    using assms(2) xs by (simp add: getHL_def foldl_getHL_step_bounded)
qed

lemma getHL_slice_bounded:
  assumes "0 \<le> s" "s < e" "e \<le> int (length xs)"
    and "\<forall>d \<in> set xs. bounded_by b (high d) \<and> bounded_by b (low d)"
  shows "bounded_pair b (getHL (slice xs s e))"
  using assms set_slice [of xs s e] by (intro getHL_bounded slice_nonempty) auto

lemma half_sum_bounded:
  assumes "bounded_by (max_double / 2) a" "bounded_by (max_double / 2) c"
  shows "bounded_by (max_double / 2) (js_half (js_add a c))"
proof -
  from assms obtain x y where a: "a = Fin x" and c: "c = Fin y"
    and x: "\<bar>x\<bar> \<le> max_double / 2" and y: "\<bar>y\<bar> \<le> max_double / 2"
    by (cases a; cases c) (simp_all add: bounded_by_def)
  from x y have sum: "\<bar>x + y\<bar> \<le> max_double" by linarith
  then have r: "\<bar>rnd (x + y)\<bar> \<le> max_double" by (rule rnd_bound [OF is_double_max])
  then have h: "\<bar>rnd (x + y) / 2\<bar> \<le> max_double / 2" by simp
  with max_double_pos have h': "\<bar>rnd (x + y) / 2\<bar> \<le> max_double" by linarith
  from h have "\<bar>rnd (rnd (x + y) / 2)\<bar> \<le> max_double / 2"
    by (rule rnd_bound [OF is_double_half_max])
  then show ?thesis
    by (simp add: a c to_double_small [OF sum] to_double_small [OF h'] bounded_by_def)
qed

lemma midpoint_bounded:
  "bounded_pair (max_double / 2) hl \<Longrightarrow> bounded_by (max_double / 2) (midpoint hl)"
  by (simp add: bounded_pair_def midpoint_def half_sum_bounded)

lemma midpoint_huge: "midpoint (Fin huge, Fin huge) = PosInf"
  by (simp only: midpoint_def fst_conv snd_conv js_add.simps js_half.simps to_double_huge)

lemma bounded_small_int: "\<bar>x\<bar> \<le> 4503599627370495 \<Longrightarrow> bounded_by (max_double / 2) (Fin x)"
  using int_range_le_max by (simp add: bounded_by_def)

text \<open>The scan of the sample series.\<close>

lemma getHL_flat: "n \<noteq> 0 \<Longrightarrow> getHL (replicate n (flat p)) = (Fin p, Fin p)"
  by (simp add: getHL_def foldl_getHL_step_replicate getHL_step_def flat_def js_lt_def)

lemma getHL_flat_append:
  "m \<noteq> 0 \<Longrightarrow> n \<noteq> 0 \<Longrightarrow> p \<le> q \<Longrightarrow>
   getHL (replicate m (flat p) @ replicate n (flat q)) = (Fin q, Fin p)"
  by (simp add: getHL_def foldl_getHL_step_replicate getHL_step_def flat_def js_lt_def)

lemma getIchimokuAt_buy_series:
  "getIchimokuAt buy_series 79
     = Some \<lparr>tenkan = Fin 150, kijun = Fin 125, spanA = Fin 100, spanB = Fin 100\<rparr>"
  by (simp add: getIchimokuAt_def buy_series_def slice_def Let_def getHL_flat getHL_flat_append
      midpoint_def)

lemma getIchimokuAt_zero_series:
  "77 \<le> i \<Longrightarrow> i < 80 \<Longrightarrow>
   getIchimokuAt zero_series i = Some \<lparr>tenkan = Fin 0, kijun = Fin 0, spanA = Fin 0, spanB = Fin 0\<rparr>"
  by (simp add: getIchimokuAt_def zero_series_def slice_def Let_def getHL_flat midpoint_def)

text \<open>
  Claim C10. The calculator depends only on the \<open>high\<close> and \<open>low\<close> fields: two
  series of equal length that agree on \<open>high\<close> and \<open>low\<close> at every index, whatever
  their \<open>open\<close>, \<open>close\<close> and \<open>date\<close>, give the same result of \<open>getIchimokuAt\<close> at
  every index.
\<close>

theorem getIchimokuAt_high_low_only:
  assumes "length xs = length ys"
    and "\<forall>i < length xs. high (xs ! i) = high (ys ! i) \<and> low (xs ! i) = low (ys ! i)"
  shows "getIchimokuAt xs index = getIchimokuAt ys index"
proof -
  have h: "map high xs = map high ys" and l: "map low xs = map low ys"
    using assms by (simp_all add: list_eq_iff_nth_eq)
  show ?thesis
    unfolding getIchimokuAt_def by (simp add: getHL_slice_cong [OF h l])
qed

theorem getIchimokuAt_high_low_only_witness:
  "getIchimokuAt (replicate 78 (flat 100)) 77
     = getIchimokuAt (replicate 78 ((flat 100)\<lparr>date := None, bar_open := Fin 1, close := NaN\<rparr>)) 77
   \<and> getIchimokuAt (replicate 78 (flat 100)) 77
     = Some \<lparr>tenkan = Fin 100, kijun = Fin 100, spanA = Fin 100, spanB = Fin 100\<rparr>"
proof -
  have "getIchimokuAt (replicate 78 (flat 100)) 77
     = Some \<lparr>tenkan = Fin 100, kijun = Fin 100, spanA = Fin 100, spanB = Fin 100\<rparr>"
    by (simp add: getIchimokuAt_def slice_def Let_def getHL_flat midpoint_def)
  then show ?thesis
    using getIchimokuAt_high_low_only [of "replicate 78 (flat 100)"
        "replicate 78 ((flat 100)\<lparr>date := None, bar_open := Fin 1, close := NaN\<rparr>)" 77]
    by simp
qed

text \<open>
  Claim C2, as amended. The guard of \<open>getIchimokuAt\<close> is \<open>index < 52 + 25\<close>: the result
  is \<open>null\<close> exactly for the indices below 77, for every series. For an index from 77 on
  that lies inside a series whose highs and lows are finite and at most half the largest
  double in magnitude, the result is a tuple whose four components are finite.
\<close>

theorem getIchimokuAt_defined:
  "(getIchimokuAt data index = None) = (index < 77) \<and>
   (77 \<le> index \<and> index < int (length data)
      \<and> (\<forall>d \<in> set data. bounded_by (max_double / 2) (high d) \<and> bounded_by (max_double / 2) (low d))
    \<longrightarrow> (\<exists>t. getIchimokuAt data index = Some t \<and> is_finite (tenkan t) \<and> is_finite (kijun t)
            \<and> is_finite (spanA t) \<and> is_finite (spanB t)))"
proof (intro conjI impI)
  show "(getIchimokuAt data index = None) = (index < 77)"
    by (simp add: getIchimokuAt_def Let_def)
next
  assume a: "77 \<le> index \<and> index < int (length data)
      \<and> (\<forall>d \<in> set data. bounded_by (max_double / 2) (high d) \<and> bounded_by (max_double / 2) (low d))"
  then have fin: "\<forall>d \<in> set data. bounded_by (max_double / 2) (high d) \<and> bounded_by (max_double / 2) (low d)"
    by simp
  have f: "bounded_by (max_double / 2) (midpoint (getHL (slice data (index - k) (index - j + 1))))"
    if "j \<le> k" "k \<le> 77" "0 \<le> j" for j k
    using a that by (intro midpoint_bounded getHL_slice_bounded fin) simp_all
  have t: "bounded_by (max_double / 2) (midpoint (getHL (slice data (index - 8) (index + 1))))"
    using f [of 0 8] by simp
  have k: "bounded_by (max_double / 2) (midpoint (getHL (slice data (index - 25) (index + 1))))"
    using f [of 0 25] by simp
  have t26: "bounded_by (max_double / 2) (midpoint (getHL (slice data (index - 25 - 9) (index - 25 + 1))))"
    using f [of 25 34] by simp
  have k26: "bounded_by (max_double / 2) (midpoint (getHL (slice data (index - 25 - 26) (index - 25 + 1))))"
    using f [of 25 51] by simp
  have b52: "bounded_by (max_double / 2) (midpoint (getHL (slice data (index - 25 - 52) (index - 25 + 1))))"
    using f [of 25 77] by simp
  show "\<exists>t. getIchimokuAt data index = Some t \<and> is_finite (tenkan t) \<and> is_finite (kijun t)
            \<and> is_finite (spanA t) \<and> is_finite (spanB t)"
    using a t k b52 half_sum_bounded [OF t26 k26]
    by (simp add: getIchimokuAt_def Let_def bounded_finite)
qed

text \<open>
  The claim as first stated puts the bound at 61 and asks nothing of the bars but to be
  finite. At index 61 of a series of 62 bars at 100 the result is \<open>null\<close>; and at index
  77 of a series of 78 bars at \<open>2 ^ 1023\<close> the sum of the highest high and the lowest low
  overflows, so that \<open>tenkan\<close> is \<open>Infinity\<close>.
\<close>

theorem getIchimokuAt_undefined_or_infinite:
  "getIchimokuAt (replicate 62 (flat 100)) 61 = None
   \<and> (61::int) < int (length (replicate 62 (flat 100)))
   \<and> is_finite (high (flat 100)) \<and> is_finite (low (flat 100))
   \<and> map_option tenkan (getIchimokuAt (replicate 78 (flat huge)) 77) = Some PosInf
   \<and> (77::int) < int (length (replicate 78 (flat huge)))
   \<and> is_finite (high (flat huge)) \<and> is_finite (low (flat huge))"
proof -
  have 1: "getIchimokuAt (replicate 62 (flat 100)) 61 = None"
    by (simp add: getIchimokuAt_def)
  have 2: "map_option tenkan (getIchimokuAt (replicate 78 (flat huge)) 77) = Some PosInf"
    by (simp add: getIchimokuAt_def slice_def Let_def getHL_flat midpoint_huge)
  from 1 2 show ?thesis by (simp add: flat_def)
qed

theorem getIchimokuAt_defined_witness:
  "\<exists>t. getIchimokuAt (replicate 78 (flat 100)) 77 = Some t \<and> is_finite (tenkan t) \<and> is_finite (kijun t)
            \<and> is_finite (spanA t) \<and> is_finite (spanB t)"
proof -
  have "bounded_by (max_double / 2) (Fin 100)" by (rule bounded_small_int) simp
  then show ?thesis
    using getIchimokuAt_defined [of "replicate 78 (flat 100)" 77]
    by (simp add: flat_def)
qed

text \<open>
  Claim C3. The claim reads Span A as the average of the midpoints over
  \<open>series[i-34 .. i-26]\<close> and \<open>series[i-51 .. i-26]\<close>. The slices of \<open>getIchimokuAt\<close>
  end at \<open>index - 25 + 1\<close> exclusive, so they also hold the bar at \<open>i-25\<close>: with a high
  of 200 at index 52 among bars at 100, the code gives 150 at index 77 where the claim
  gives 100.
\<close>

theorem spanA_window_includes_bar_25_back:
  "map_option spanA (getIchimokuAt spike_series 77) = Some (Fin 150)
   \<and> spec_spanA spike_series 77 = Fin 100"
  by (simp add: getIchimokuAt_def spec_spanA_def spike_series_def slice_def Let_def getHL_def
      foldl_getHL_step_replicate getHL_step_def flat_def js_lt_def midpoint_def)

section \<open>The signal\<close>

text \<open>
  Claim C4. The published signal is BUY exactly when \<open>tenkan > kijun\<close> and the price
  is above \<open>max(spanA, spanB)\<close>, SELL exactly when \<open>tenkan < kijun\<close> and the price is
  below \<open>min(spanA, spanB)\<close>, and NEUTRAL in every other case; when \<open>tenkan\<close> and
  \<open>kijun\<close> are equal it is NEUTRAL whatever the price. The last two conjuncts read the
  first two on finite numbers.
\<close>

theorem evaluate_signal_cases:
  "(or_NEUTRAL (evaluate_signal price t) = ''BUY'')
     = (js_gt (tenkan t) (kijun t) \<and> js_gt price (js_max (spanA t) (spanB t)))
   \<and> (or_NEUTRAL (evaluate_signal price t) = ''SELL'')
     = (js_lt (tenkan t) (kijun t) \<and> js_lt price (js_min (spanA t) (spanB t)))
   \<and> (or_NEUTRAL (evaluate_signal price t) = ''NEUTRAL'')
     = (\<not> (js_gt (tenkan t) (kijun t) \<and> js_gt price (js_max (spanA t) (spanB t)))
        \<and> \<not> (js_lt (tenkan t) (kijun t) \<and> js_lt price (js_min (spanA t) (spanB t))))
   \<and> or_NEUTRAL (evaluate_signal price (t\<lparr>kijun := tenkan t\<rparr>)) = ''NEUTRAL''
   \<and> (or_NEUTRAL (evaluate_signal (Fin p) \<lparr>tenkan = Fin a, kijun = Fin b, spanA = Fin x, spanB = Fin y\<rparr>)
        = ''BUY'') = (b < a \<and> max x y < p)
   \<and> (or_NEUTRAL (evaluate_signal (Fin p) \<lparr>tenkan = Fin a, kijun = Fin b, spanA = Fin x, spanB = Fin y\<rparr>)
        = ''SELL'') = (a < b \<and> p < min x y)"
proof -
  have ex: "\<not> (js_gt (tenkan t) (kijun t) \<and> js_lt (tenkan t) (kijun t))"
    using js_gt_asym [of "tenkan t" "kijun t"] by (auto simp: js_lt_def)
  have 1: "(or_NEUTRAL (evaluate_signal price t) = ''BUY'')
     = (js_gt (tenkan t) (kijun t) \<and> js_gt price (js_max (spanA t) (spanB t)))"
    by (simp add: or_NEUTRAL_def evaluate_signal_def)
  have 2: "(or_NEUTRAL (evaluate_signal price t) = ''SELL'')
     = (js_lt (tenkan t) (kijun t) \<and> js_lt price (js_min (spanA t) (spanB t)))"
    using ex by (auto simp: or_NEUTRAL_def evaluate_signal_def)
  have 3: "(or_NEUTRAL (evaluate_signal price t) = ''NEUTRAL'')
     = (\<not> (js_gt (tenkan t) (kijun t) \<and> js_gt price (js_max (spanA t) (spanB t)))
        \<and> \<not> (js_lt (tenkan t) (kijun t) \<and> js_lt price (js_min (spanA t) (spanB t))))"
    by (simp add: or_NEUTRAL_def evaluate_signal_def)
  have 4: "or_NEUTRAL (evaluate_signal price (t\<lparr>kijun := tenkan t\<rparr>)) = ''NEUTRAL''"
    by (simp add: or_NEUTRAL_def evaluate_signal_def js_lt_def)
  have 5: "(or_NEUTRAL (evaluate_signal (Fin p) \<lparr>tenkan = Fin a, kijun = Fin b, spanA = Fin x, spanB = Fin y\<rparr>)
        = ''BUY'') = (b < a \<and> max x y < p)"
    by (simp add: or_NEUTRAL_def evaluate_signal_def js_max_Fin)
  have 6: "(or_NEUTRAL (evaluate_signal (Fin p) \<lparr>tenkan = Fin a, kijun = Fin b, spanA = Fin x, spanB = Fin y\<rparr>)
        = ''SELL'') = (a < b \<and> p < min x y)"
    by (auto simp: or_NEUTRAL_def evaluate_signal_def js_min_Fin js_lt_def)
  from 1 2 3 4 5 6 show ?thesis by blast
qed

section \<open>Keys and the history file\<close>

lemma split_js_nonempty [simp]: "split_js c s \<noteq> []"
  by (cases s) (simp_all split: list.splits)

lemma split_js_no_sep: "c \<notin> set s \<Longrightarrow> split_js c s = [s]"
  by (induction s) auto

lemma split_js_append: "c \<notin> set a \<Longrightarrow> split_js c (a @ c # b) = a # split_js c b"
  by (induction a) auto

lemma join_js_Cons: "ps \<noteq> [] \<Longrightarrow> join_js sep (p # ps) = p @ sep @ join_js sep ps"
  by (cases ps) simp_all

lemma join_js_Cons_Cons: "join_js sep ((x # p) # ps) = x # join_js sep (p # ps)"
  by (cases ps) simp_all

lemma join_split_js: "join_js [c] (split_js c s) = s"
proof (induction s)
  case Nil
  show ?case by simp
next
  case (Cons x xs)
  obtain p ps where sp: "split_js c xs = p # ps"
    using split_js_nonempty [of c xs] by (cases "split_js c xs") auto
  with Cons.IH show ?case
    by (simp add: join_js_Cons join_js_Cons_Cons)
qed

lemma hd_split_js_no_sep: "c \<notin> set (hd (split_js c s))"
  by (induction s) (auto split: list.splits)

lemma parse_key_build: "CHR ''-'' \<notin> set T \<Longrightarrow> parse_key (T @ ''-'' @ D) = (T, D)"
  by (simp add: parse_key_def split_js_append join_split_js)

lemma day_of_idem: "day_of (day_of d) = day_of d"
  by (simp add: day_of_def split_js_no_sep hd_split_js_no_sep)

lemma alert_key_day_of: "alert_key S (day_of d) = alert_key S d"
  by (simp add: alert_key_def day_of_idem)

lemma parse_alert_key:
  "T \<in> {''BUY'', ''SELL''} \<Longrightarrow> parse_key (alert_key T d) = (T, day_of d)"
  unfolding alert_key_def by (rule parse_key_build) auto

lemma day_of_sample: "day_of ''2024-03-01T00:00:00.000Z'' = ''2024-03-01''"
  by (simp add: day_of_def)

lemma has_key_update_True [simp]: "has_key (AList.update k (JBool True) h) k"
  by (simp add: has_key_def update_conv')

lemma has_key_update_other: "has_key h k \<Longrightarrow> has_key (AList.update k' (JBool True) h) k"
  by (cases "k = k'") (simp_all add: has_key_def update_conv')

lemma has_key_in_keys: "has_key h k \<Longrightarrow> k \<in> fst ` set h"
  by (auto simp: has_key_def split: option.splits dest: map_of_SomeD intro: rev_image_eqI)

lemma checkAlertHistory_hit:
  "ledger_has hf (alert_key S d) \<Longrightarrow> checkAlertHistory S d hf = (True, hf, [])"
  by (cases hf) (simp_all add: checkAlertHistory_def ledger_has_def file_history_def has_key_def)

lemma checkAlertHistory_miss:
  "\<not> ledger_has hf (alert_key S d) \<Longrightarrow>
   checkAlertHistory S d hf =
     (False, Some (AList.update (alert_key S d) (JBool True) (file_history hf)),
      (case hf of None \<Rightarrow> [WriteHistory []] | Some h \<Rightarrow> [])
        @ [WriteHistory (AList.update (alert_key S d) (JBool True) (file_history hf))])"
  by (cases hf) (simp_all add: checkAlertHistory_def ledger_has_def file_history_def Let_def)

lemma count_key_update:
  "distinct (map fst h) \<Longrightarrow> length (filter (\<lambda>p. fst p = k) (AList.update k v h)) = 1"
proof (induction h)
  case Nil
  show ?case by simp
next
  case (Cons p h)
  show ?case
  proof (cases "fst p = k")
    case True
    with Cons.prems have "k \<notin> fst ` set h" by auto
    then have "filter (\<lambda>p. fst p = k) h = []" by (auto simp: filter_empty_conv)
    with True show ?thesis by simp
  next
    case False
    with Cons show ?thesis by simp
  qed
qed

lemma count_key_present:
  "distinct (map fst h) \<Longrightarrow> k \<in> fst ` set h \<Longrightarrow> length (filter (\<lambda>p. fst p = k) h) = 1"
proof (induction h)
  case Nil
  then show ?case by simp
next
  case (Cons p h)
  show ?case
  proof (cases "fst p = k")
    case True
    with Cons.prems have "k \<notin> fst ` set h" by auto
    then have "filter (\<lambda>p. fst p = k) h = []" by (auto simp: filter_empty_conv)
    with True show ?thesis by simp
  next
    case False
    with Cons show ?thesis by auto
  qed
qed

lemma keys_update: "fst ` set (AList.update k v h) = insert k (fst ` set h)"
proof -
  have "set (map fst (AList.update k v h)) = insert k (set (map fst h))"
    by (auto simp: update_keys)
  then show ?thesis by simp
qed

lemma set_signalsArray: "set (signalsArray hf) = parse_key ` fst ` set (file_history hf)"
  by (cases hf) (simp_all add: signalsArray_def file_history_def image_image)

lemma signalsArray_None: "signalsArray None = []"
  by (simp add: signalsArray_def)

lemma signalsArray_checkAlertHistory:
  "set (signalsArray (fst (snd (checkAlertHistory S d hf))))
     = insert (parse_key (alert_key S d)) (set (signalsArray hf))"
proof (cases "ledger_has hf (alert_key S d)")
  case True
  then have "alert_key S d \<in> fst ` set (file_history hf)"
    by (simp add: ledger_has_def has_key_in_keys)
  then have "parse_key (alert_key S d) \<in> set (signalsArray hf)"
    unfolding set_signalsArray by (rule imageI)
  with True show ?thesis by (auto simp: checkAlertHistory_hit)
next
  case False
  then show ?thesis
    by (simp add: checkAlertHistory_miss set_signalsArray file_history_def keys_update)
qed

lemma signalsArray_record_events:
  "set (signalsArray (record_events hf evs))
     = set (signalsArray hf) \<union> (\<lambda>(S, d). parse_key (alert_key S d)) ` set evs"
proof (induction evs arbitrary: hf)
  case Nil
  show ?case by (simp add: record_events_def)
next
  case (Cons ev evs)
  obtain S d where ev: "ev = (S, d)" by (cases ev)
  have "record_events hf (ev # evs) = record_events (fst (snd (checkAlertHistory S d hf))) evs"
    by (simp add: record_events_def ev)
  then show ?case
    by (simp add: Cons.IH signalsArray_checkAlertHistory ev)
qed

text \<open>
  Claim C5. Recording is idempotent: after \<open>checkAlertHistory(S, D)\<close> on any history
  file, a second call with the same arguments returns \<open>true\<close>, writes nothing and
  leaves the file as the first call left it; the entry for \<open>(S, D)\<close> is then present,
  and it is the only entry under its key (the keys of an object being distinct).
\<close>

theorem checkAlertHistory_idempotent:
  assumes "checkAlertHistory S d hf = (r1, f1, e1)"
    and "checkAlertHistory S d f1 = (r2, f2, e2)"
  shows "r2 \<and> f2 = f1 \<and> e2 = [] \<and> ledger_has f1 (alert_key S d)
     \<and> (distinct (map fst (file_history hf)) \<longrightarrow>
          length (filter (\<lambda>p. fst p = alert_key S d) (file_history f1)) = 1)"
proof (cases "ledger_has hf (alert_key S d)")
  case True
  with assms(1) have f1: "f1 = hf" by (simp add: checkAlertHistory_hit)
  have "alert_key S d \<in> fst ` set (file_history hf)"
    using True by (simp add: ledger_has_def has_key_in_keys)
  then have "distinct (map fst (file_history hf)) \<longrightarrow>
      length (filter (\<lambda>p. fst p = alert_key S d) (file_history hf)) = 1"
    by (simp add: count_key_present)
  with True assms(2) f1 show ?thesis by (simp add: checkAlertHistory_hit)
next
  case False
  with assms(1) have f1: "f1 = Some (AList.update (alert_key S d) (JBool True) (file_history hf))"
    by (simp add: checkAlertHistory_miss)
  then have has: "ledger_has f1 (alert_key S d)" by (simp add: ledger_has_def file_history_def)
  with assms(2) have "r2 \<and> f2 = f1 \<and> e2 = []" by (simp add: checkAlertHistory_hit)
  moreover have "distinct (map fst (file_history hf)) \<longrightarrow>
      length (filter (\<lambda>p. fst p = alert_key S d) (file_history f1)) = 1"
    using f1 by (simp add: file_history_def count_key_update)
  ultimately show ?thesis using has by simp
qed

theorem checkAlertHistory_idempotent_witness:
  "checkAlertHistory ''BUY'' ''2024-03-01T00:00:00.000Z'' (Some [(''SELL-2024-02-01'', JBool True)])
     = (False, Some [(''SELL-2024-02-01'', JBool True), (''BUY-2024-03-01'', JBool True)],
        [WriteHistory [(''SELL-2024-02-01'', JBool True), (''BUY-2024-03-01'', JBool True)]])
   \<and> checkAlertHistory ''BUY'' ''2024-03-01T00:00:00.000Z''
        (Some [(''SELL-2024-02-01'', JBool True), (''BUY-2024-03-01'', JBool True)])
     = (True, Some [(''SELL-2024-02-01'', JBool True), (''BUY-2024-03-01'', JBool True)], [])
   \<and> ledger_has (Some [(''SELL-2024-02-01'', JBool True), (''BUY-2024-03-01'', JBool True)])
        (alert_key ''BUY'' ''2024-03-01T00:00:00.000Z'')
   \<and> length (filter (\<lambda>p. fst p = alert_key ''BUY'' ''2024-03-01T00:00:00.000Z'')
        (file_history (Some [(''SELL-2024-02-01'', JBool True), (''BUY-2024-03-01'', JBool True)]))) = 1"
proof -
  have 1: "checkAlertHistory ''BUY'' ''2024-03-01T00:00:00.000Z'' (Some [(''SELL-2024-02-01'', JBool True)])
     = (False, Some [(''SELL-2024-02-01'', JBool True), (''BUY-2024-03-01'', JBool True)],
        [WriteHistory [(''SELL-2024-02-01'', JBool True), (''BUY-2024-03-01'', JBool True)]])"
    by (simp add: checkAlertHistory_def alert_key_def day_of_sample has_key_def Let_def)
  have 2: "checkAlertHistory ''BUY'' ''2024-03-01T00:00:00.000Z''
        (Some [(''SELL-2024-02-01'', JBool True), (''BUY-2024-03-01'', JBool True)])
     = (True, Some [(''SELL-2024-02-01'', JBool True), (''BUY-2024-03-01'', JBool True)], [])"
    by (simp add: checkAlertHistory_def alert_key_def day_of_sample has_key_def)
  have 3: "distinct (map fst (file_history (Some [(''SELL-2024-02-01'', JBool True)])))"
    by (simp add: file_history_def)
  from checkAlertHistory_idempotent [OF 1 2] 1 2 3 show ?thesis by simp
qed

section \<open>Runs\<close>

lemma historyFile_apply: "historyFile (apply_effect e w) = hist_effect e (historyFile w)"
  by (cases e) simp_all

lemma historyFile_replay: "historyFile (replay effs w) = fold hist_effect effs (historyFile w)"
  unfolding replay_def by (induction effs arbitrary: w) (simp_all add: historyFile_apply)

lemma outbox_apply: "\<not> is_send e \<Longrightarrow> outbox (apply_effect e w) = outbox w"
  by (cases e) simp_all

lemma outbox_replay: "filter is_send effs = [] \<Longrightarrow> outbox (replay effs w) = outbox w"
  unfolding replay_def
  by (induction effs arbitrary: w) (simp_all add: outbox_apply split: if_splits)

lemma fold_hist_effect_website:
  "\<forall>e \<in> set rest. is_website_write e \<Longrightarrow> fold hist_effect rest hf = hf"
proof (induction rest)
  case Nil
  show ?case by simp
next
  case (Cons e rest)
  then show ?case by (cases e) simp_all
qed

lemma filter_send_website: "\<forall>e \<in> set rest. is_website_write e \<Longrightarrow> filter is_send rest = []"
proof (induction rest)
  case Nil
  show ?case by simp
next
  case (Cons e rest)
  then show ?case by (cases e) simp_all
qed

lemma filter_hw_website:
  "\<forall>e \<in> set rest. is_website_write e \<Longrightarrow> filter is_history_write rest = []"
proof (induction rest)
  case Nil
  show ?case by simp
next
  case (Cons e rest)
  then show ?case by (cases e) simp_all
qed

lemma alert_step_hit:
  "S \<noteq> [] \<Longrightarrow> ledger_has hf (alert_key S d) \<Longrightarrow> alert_step tick S d price hf = (hf, [])"
  by (simp add: alert_step_def checkAlertHistory_hit)

lemma alert_step_miss:
  "S \<noteq> [] \<Longrightarrow> \<not> ledger_has hf (alert_key S d) \<Longrightarrow>
   alert_step tick S d price hf =
     (Some (AList.update (alert_key S d) (JBool True) (file_history hf)),
      (case hf of None \<Rightarrow> [WriteHistory []] | Some h \<Rightarrow> [])
        @ [WriteHistory (AList.update (alert_key S d) (JBool True) (file_history hf)),
           SendEmail S tick price])"
  by (simp add: alert_step_def checkAlertHistory_miss)

lemma snd_run: "snd (run tick w f) = replay (snd (run_trace tick (historyFile w) f)) w"
  by (simp add: run_def split: prod.splits)

text \<open>
  The effects of a run, but for the write of the website data at its end, are those of
  its \<open>if (signal)\<close> block.
\<close>

lemma run_body_latest:
  assumes "\<not> length data < 80" "latest data = Some (S, price, d, ich)"
  shows "\<exists>rest. snd (run_body tick hf data) = snd (alert_step tick S d price hf) @ rest
           \<and> (\<forall>e \<in> set rest. is_website_write e)"
proof -
  obtain hf' effs where a: "alert_step tick S d price hf = (hf', effs)"
    by (cases "alert_step tick S d price hf")
  show ?thesis
    using assms a by (cases "displayHistory data") (simp_all add: run_body_def)
qed

lemma run_trace_no_key:
  "run_key f = None \<Longrightarrow> \<forall>e \<in> set (snd (run_trace tick hf f)). is_website_write e"
  by (auto simp: run_key_def run_trace_def run_body_def alert_step_def
      split: option.splits if_splits prod.splits)

lemma run_trace_key:
  assumes "run_key f = Some (S, D)"
  shows "\<exists>price d rest. S \<noteq> [] \<and> day_of d = D
     \<and> snd (run_trace tick hf f) = snd (alert_step tick S d price hf) @ rest
     \<and> (\<forall>e \<in> set rest. is_website_write e)"
proof -
  from assms obtain data where f: "f = Some data" and len: "\<not> length data < 80"
    by (auto simp: run_key_def split: option.splits if_splits)
  from assms f len obtain price d ich where l: "latest data = Some (S, price, d, ich)"
    and S: "S \<noteq> []" and D: "day_of d = D"
    by (auto simp: run_key_def split: option.splits if_splits)
  from run_body_latest [OF len l, of tick hf] obtain rest
    where "snd (run_trace tick hf f) = snd (alert_step tick S d price hf) @ rest"
      and "\<forall>e \<in> set rest. is_website_write e"
    using f by (auto simp: run_trace_def)
  with S D show ?thesis by blast
qed

lemma run_sends:
  assumes "run_key f = Some (S, D)"
  shows "length (filter is_send (snd (run_trace tick hf f)))
           = (if ledger_has hf (S @ ''-'' @ D) then 0 else 1)"
proof -
  from run_trace_key [OF assms, of tick hf] obtain price d rest where S: "S \<noteq> []"
    and D: "day_of d = D"
    and t: "snd (run_trace tick hf f) = snd (alert_step tick S d price hf) @ rest"
    and r: "\<forall>e \<in> set rest. is_website_write e" by blast
  have k: "S @ ''-'' @ D = alert_key S d" by (simp add: alert_key_def D)
  show ?thesis
  proof (cases "ledger_has hf (alert_key S d)")
    case True
    with S t r k show ?thesis by (simp add: alert_step_hit filter_send_website)
  next
    case False
    with S t r k show ?thesis
      by (cases hf) (simp_all add: alert_step_miss filter_send_website)
  qed
qed

lemma run_history_writes:
  assumes "run_key f = Some (S, D)" "ledger_has hf (S @ ''-'' @ D)"
  shows "filter is_history_write (snd (run_trace tick hf f)) = []"
proof -
  from run_trace_key [OF assms(1), of tick hf] obtain price d rest where S: "S \<noteq> []"
    and D: "day_of d = D"
    and t: "snd (run_trace tick hf f) = snd (alert_step tick S d price hf) @ rest"
    and r: "\<forall>e \<in> set rest. is_website_write e" by blast
  have k: "S @ ''-'' @ D = alert_key S d" by (simp add: alert_key_def D)
  with S t r assms(2) show ?thesis by (simp add: alert_step_hit filter_hw_website)
qed

lemma run_records:
  assumes "run_key f = Some (S, D)" "historyFile w = hf"
  shows "ledger_has (historyFile (snd (run tick w f))) (S @ ''-'' @ D)"
proof -
  from run_trace_key [OF assms(1), of tick hf] obtain price d rest where S: "S \<noteq> []"
    and D: "day_of d = D"
    and t: "snd (run_trace tick hf f) = snd (alert_step tick S d price hf) @ rest"
    and r: "\<forall>e \<in> set rest. is_website_write e" by blast
  have k: "S @ ''-'' @ D = alert_key S d" by (simp add: alert_key_def D)
  have h: "historyFile (snd (run tick w f))
             = fold hist_effect rest (fold hist_effect (snd (alert_step tick S d price hf)) hf)"
    using t assms(2) by (simp add: snd_run historyFile_replay)
  show ?thesis
  proof (cases "ledger_has hf (alert_key S d)")
    case True
    with S r h k show ?thesis by (simp add: alert_step_hit fold_hist_effect_website)
  next
    case False
    with S r h k show ?thesis
      by (cases hf)
        (simp_all add: alert_step_miss fold_hist_effect_website ledger_has_def file_history_def
          has_key_def update_conv')
  qed
qed

lemma run_keeps:
  assumes "ledger_has (historyFile w) k"
  shows "ledger_has (historyFile (snd (run tick w f))) k"
proof (cases "run_key f")
  case None
  from run_trace_no_key [OF None, of tick "historyFile w"] show ?thesis
    using assms by (simp add: snd_run historyFile_replay fold_hist_effect_website)
next
  case (Some sd)
  obtain S D where sd: "sd = (S, D)" by (cases sd)
  from Some sd have rk: "run_key f = Some (S, D)" by simp
  from run_trace_key [OF rk, of tick "historyFile w"] obtain price d rest where S: "S \<noteq> []"
    and t: "snd (run_trace tick (historyFile w) f)
              = snd (alert_step tick S d price (historyFile w)) @ rest"
    and r: "\<forall>e \<in> set rest. is_website_write e" by blast
  have h: "historyFile (snd (run tick w f))
             = fold hist_effect rest
                 (fold hist_effect (snd (alert_step tick S d price (historyFile w))) (historyFile w))"
    using t by (simp add: snd_run historyFile_replay)
  obtain h0 where h0: "historyFile w = Some h0"
    using assms by (cases "historyFile w") (simp_all add: ledger_has_def file_history_def has_key_def)
  show ?thesis
  proof (cases "ledger_has (historyFile w) (alert_key S d)")
    case True
    with S r h assms show ?thesis by (simp add: alert_step_hit fold_hist_effect_website)
  next
    case False
    with S r h assms h0 show ?thesis
      by (simp add: alert_step_miss fold_hist_effect_website ledger_has_def file_history_def
          has_key_update_other)
  qed
qed

lemma runs_keep: "ledger_has (historyFile w) k \<Longrightarrow> ledger_has (historyFile (runs tick w fs)) k"
  by (induction fs arbitrary: w) (simp_all add: run_keeps)

lemma sends_for_recorded:
  "ledger_has (historyFile w) (S @ ''-'' @ D) \<Longrightarrow> sends_for (S, D) tick w fs = 0"
  by (induction fs arbitrary: w) (simp_all add: run_sends run_keeps)

lemma sends_for_le_1: "sends_for (S, D) tick w fs \<le> 1"
proof (induction fs arbitrary: w)
  case Nil
  show ?case by simp
next
  case (Cons f fs)
  show ?case
  proof (cases "run_key f = Some (S, D)")
    case True
    then have "sends_for (S, D) tick (snd (run tick w f)) fs = 0"
      by (intro sends_for_recorded run_records [where hf = "historyFile w"]) simp_all
    with True show ?thesis by (simp add: run_sends)
  next
    case False
    with Cons.IH show ?thesis by simp
  qed
qed

text \<open>The run on the sample series that ends above the cloud.\<close>

lemma latest_buy_series:
  "latest buy_series = Some (''BUY'', Fin 150, ''2024-03-01T00:00:00.000Z'',
     \<lparr>tenkan = Fin 150, kijun = Fin 125, spanA = Fin 100, spanB = Fin 100\<rparr>)"
proof -
  have "buy_series ! 79 = flat 150" by (simp add: buy_series_def nth_append)
  moreover have "length buy_series = 80" by (simp add: buy_series_def)
  ultimately show ?thesis
    using getIchimokuAt_buy_series
    by (simp add: latest_def flat_def evaluate_signal_def js_max_def Let_def)
qed

lemma run_key_buy_series: "run_key (Some buy_series) = Some (''BUY'', ''2024-03-01'')"
proof -
  have "length buy_series = 80" by (simp add: buy_series_def)
  then show ?thesis by (simp add: run_key_def latest_buy_series day_of_sample)
qed

lemma alert_step_buy_series:
  "alert_step ''GLD'' ''BUY'' ''2024-03-01T00:00:00.000Z'' (Fin 150) None
     = (Some [(''BUY-2024-03-01'', JBool True)],
        [WriteHistory [], WriteHistory [(''BUY-2024-03-01'', JBool True)],
         SendEmail ''BUY'' ''GLD'' (Fin 150)])"
  by (simp add: alert_step_def checkAlertHistory_def alert_key_def day_of_sample has_key_def Let_def)

lemma run_trace_buy_series:
  "\<exists>rest. snd (run_trace ''GLD'' None (Some buy_series))
     = [WriteHistory [], WriteHistory [(''BUY-2024-03-01'', JBool True)],
        SendEmail ''BUY'' ''GLD'' (Fin 150)] @ rest"
proof -
  have len: "\<not> length buy_series < 80" by (simp add: buy_series_def)
  from run_body_latest [OF len latest_buy_series, of "''GLD''" None]
  show ?thesis by (auto simp: run_trace_def alert_step_buy_series)
qed

text \<open>
  The history file that \<open>alert_step\<close> returns is the one its effects leave, and the
  \<open>signalHistory\<close> of the website data is parsed from it.
\<close>

lemma alert_step_file:
  assumes "alert_step tick S d price hf = (hf', effs)"
  shows "fold hist_effect effs hf = hf' \<and> (\<forall>e \<in> set effs. \<not> is_website_write e)"
proof (cases "S = []")
  case True
  with assms show ?thesis by (simp add: alert_step_def)
next
  case False
  show ?thesis
  proof (cases "ledger_has hf (alert_key S d)")
    case True
    with False assms show ?thesis by (simp add: alert_step_hit)
  next
    case miss: False
    with False assms show ?thesis by (cases hf) (auto simp: alert_step_miss)
  qed
qed

lemma snapshot_signalHistory:
  assumes "WriteWebsite s \<in> set (snd (run_trace tick (historyFile w) f))"
  shows "signalHistory s = signalsArray (historyFile (snd (run tick w f)))"
proof -
  from assms obtain data where f: "f = Some data"
    by (cases f) (simp_all add: run_trace_def)
  from assms f have len: "\<not> length data < 80"
    by (auto simp: run_trace_def run_body_def split: if_splits)
  from assms f len obtain S price d ich where l: "latest data = Some (S, price, d, ich)"
    by (cases "latest data") (auto simp: run_trace_def run_body_def)
  obtain hf' effs where a: "alert_step tick S d price (historyFile w) = (hf', effs)"
    by (cases "alert_step tick S d price (historyFile w)")
  from alert_step_file [OF a] have fold: "fold hist_effect effs (historyFile w) = hf'"
    and nw: "\<forall>e \<in> set effs. \<not> is_website_write e" by simp_all
  from nw have notin: "WriteWebsite s \<notin> set effs" by force
  show ?thesis
  proof (cases "displayHistory data")
    case None
    with assms f len l a notin show ?thesis by (simp add: run_trace_def run_body_def)
  next
    case (Some dh)
    with assms f len l a notin have "signalHistory s = signalsArray hf'"
      by (auto simp: run_trace_def run_body_def)
    moreover have "historyFile (snd (run tick w f)) = hf'"
      using f len l a Some fold
      by (simp add: snd_run historyFile_replay run_trace_def run_body_def)
    ultimately show ?thesis by simp
  qed
qed

text \<open>The trailing window is built whenever the dates of the series are valid.\<close>

lemma map_throwing_total:
  "\<forall>x \<in> set xs. f x = Some (g x) \<Longrightarrow> map_throwing f xs = Some (map g xs)"
  by (induction xs) simp_all

lemma display_entry_defined: "date d = Some s \<Longrightarrow> \<exists>e. display_entry data d i = Some e"
  by (simp add: display_entry_def Let_def)

lemma displayHistory_defined:
  assumes "\<forall>d \<in> set data. date d \<noteq> None"
  shows "\<exists>dh. displayHistory data = Some dh"
proof -
  have "\<forall>x \<in> set (zip (slice data (- 40) (int (length data)))
            [0 ..< length (slice data (- 40) (int (length data)))]).
          (\<lambda>(d, i). display_entry data d i) x
            = Some ((\<lambda>(d, i). the (display_entry data d i)) x)"
  proof
    fix x
    assume x: "x \<in> set (zip (slice data (- 40) (int (length data)))
            [0 ..< length (slice data (- 40) (int (length data)))])"
    obtain d i where di: "x = (d, i)" by (cases x)
    with x have "d \<in> set (slice data (- 40) (int (length data)))" by (auto dest: set_zip_leftD)
    with set_slice [of data "- 40" "int (length data)"] have "d \<in> set data" by blast
    with assms obtain s where "date d = Some s" by auto
    from display_entry_defined [OF this, of data i] di
    show "(\<lambda>(d, i). display_entry data d i) x
            = Some ((\<lambda>(d, i). the (display_entry data d i)) x)" by auto
  qed
  from map_throwing_total [OF this] show ?thesis
    by (simp add: displayHistory_def Let_def)
qed

lemma run_trace_buy_series_website:
  "\<exists>s. WriteWebsite s \<in> set (snd (run_trace ''GLD'' None (Some buy_series)))"
proof -
  have len: "\<not> length buy_series < 80" by (simp add: buy_series_def)
  have "\<forall>d \<in> set buy_series. date d \<noteq> None" by (auto simp: buy_series_def flat_def)
  from displayHistory_defined [OF this] obtain dh where "displayHistory buy_series = Some dh" ..
  with len latest_buy_series show ?thesis
    by (auto simp: run_trace_def run_body_def split: prod.splits)
qed

lemma historyFile_run_buy_series:
  "historyFile (snd (run ''GLD'' fresh_world (Some buy_series))) = Some [(''BUY-2024-03-01'', JBool True)]"
proof -
  have len: "\<not> length buy_series < 80" by (simp add: buy_series_def)
  from run_body_latest [OF len latest_buy_series, of "''GLD''" None] obtain rest'
    where "snd (run_body ''GLD'' None buy_series)
       = snd (alert_step ''GLD'' ''BUY'' ''2024-03-01T00:00:00.000Z'' (Fin 150) None) @ rest'"
    and "\<forall>e \<in> set rest'. is_website_write e" by blast
  then show ?thesis
    by (simp add: snd_run historyFile_replay fresh_world_def run_trace_def fold_hist_effect_website
        alert_step_buy_series)
qed

text \<open>
  Claim C6. The key round-trips: for a type \<open>T\<close> that is \<open>BUY\<close> or \<open>SELL\<close> and any
  day string \<open>D\<close>, also one that holds \<open>-\<close>, parsing the key built from \<open>(T, D)\<close>
  gives \<open>(T, D)\<close> back. So the \<open>signalHistory\<close> parsed from the keys of the history
  file is, as a set, what it was before together with the \<open>(type, day)\<close> pairs recorded
  since: from a new file, exactly the events recorded. The \<open>signalHistory\<close> of the
  website data that a run writes is the one parsed from the history file as the run
  leaves it.
\<close>

theorem key_round_trip:
  "(T \<in> {''BUY'', ''SELL''} \<longrightarrow> parse_key (T @ ''-'' @ D) = (T, D))
   \<and> ((\<forall>ev \<in> set evs. fst ev \<in> {''BUY'', ''SELL''}) \<longrightarrow>
       set (signalsArray (record_events hf evs))
         = set (signalsArray hf) \<union> (\<lambda>(S, d). (S, day_of d)) ` set evs)
   \<and> (WriteWebsite s \<in> set (snd (run_trace tick (historyFile w) f)) \<longrightarrow>
       signalHistory s = signalsArray (historyFile (snd (run tick w f))))"
proof (intro conjI impI)
  assume "T \<in> {''BUY'', ''SELL''}"
  then have "CHR ''-'' \<notin> set T" by auto
  then show "parse_key (T @ ''-'' @ D) = (T, D)" by (rule parse_key_build)
next
  assume a: "\<forall>ev \<in> set evs. fst ev \<in> {''BUY'', ''SELL''}"
  have "(\<lambda>(S, d). parse_key (alert_key S d)) ` set evs = (\<lambda>(S, d). (S, day_of d)) ` set evs"
  proof (rule image_cong [OF refl])
    fix ev assume "ev \<in> set evs"
    with a have "fst ev \<in> {''BUY'', ''SELL''}" by blast
    then show "(case ev of (S, d) \<Rightarrow> parse_key (alert_key S d)) = (case ev of (S, d) \<Rightarrow> (S, day_of d))"
      by (cases ev) (simp add: parse_alert_key)
  qed
  then show "set (signalsArray (record_events hf evs))
         = set (signalsArray hf) \<union> (\<lambda>(S, d). (S, day_of d)) ` set evs"
    by (simp add: signalsArray_record_events)
next
  assume "WriteWebsite s \<in> set (snd (run_trace tick (historyFile w) f))"
  then show "signalHistory s = signalsArray (historyFile (snd (run tick w f)))"
    by (rule snapshot_signalHistory)
qed

theorem key_round_trip_witness:
  "parse_key (''SELL'' @ ''-'' @ ''2024-03-01'') = (''SELL'', ''2024-03-01'')
   \<and> set (signalsArray (record_events None
          [(''BUY'', ''2024-03-01T00:00:00.000Z''), (''SELL'', ''2024-03-04T00:00:00.000Z''),
           (''BUY'', ''2024-03-01T09:30:00.000Z'')]))
       = {(''BUY'', ''2024-03-01''), (''SELL'', ''2024-03-04'')}
   \<and> (\<exists>s. WriteWebsite s \<in> set (snd (run_trace ''GLD'' (historyFile fresh_world) (Some buy_series)))
          \<and> signalHistory s = [(''BUY'', ''2024-03-01'')])"
proof -
  have d: "day_of ''2024-03-04T00:00:00.000Z'' = ''2024-03-04''"
    "day_of ''2024-03-01T09:30:00.000Z'' = ''2024-03-01''"
    by (simp_all add: day_of_def)
  from run_trace_buy_series_website obtain s where
    s: "WriteWebsite s \<in> set (snd (run_trace ''GLD'' (historyFile fresh_world) (Some buy_series)))"
    by (auto simp: fresh_world_def)
  have pk: "parse_key ''BUY-2024-03-01'' = (''BUY'', ''2024-03-01'')"
    by (simp add: parse_key_def)
  note k = key_round_trip [of "''SELL''" "''2024-03-01''"
        "[(''BUY'', ''2024-03-01T00:00:00.000Z''), (''SELL'', ''2024-03-04T00:00:00.000Z''),
           (''BUY'', ''2024-03-01T09:30:00.000Z'')]" None s "''GLD''" fresh_world "Some buy_series"]
  from k s have "signalHistory s = [(''BUY'', ''2024-03-01'')]"
    by (simp add: historyFile_run_buy_series signalsArray_def pk)
  with s have 3: "\<exists>s. WriteWebsite s \<in> set (snd (run_trace ''GLD'' (historyFile fresh_world) (Some buy_series)))
          \<and> signalHistory s = [(''BUY'', ''2024-03-01'')]" by blast
  from k have 12: "parse_key (''SELL'' @ ''-'' @ ''2024-03-01'') = (''SELL'', ''2024-03-01'')
   \<and> set (signalsArray (record_events None
          [(''BUY'', ''2024-03-01T00:00:00.000Z''), (''SELL'', ''2024-03-04T00:00:00.000Z''),
           (''BUY'', ''2024-03-01T09:30:00.000Z'')]))
       = {(''BUY'', ''2024-03-01''), (''SELL'', ''2024-03-04'')}"
    by (auto simp: signalsArray_None day_of_sample d)
  from 12 3 show ?thesis by blast
qed

text \<open>
  Claim C8. On a fetched series of fewer than 80 bars the run returns without an error
  exit and without any effect: no mail is sent, the history file and the website data
  are left as they were.
\<close>

theorem short_series_no_effect:
  "length data < 80 \<Longrightarrow>
   run_trace tick hf (Some data) = (Returned, []) \<and> run tick w (Some data) = (Returned, w)"
  by (simp add: run_def run_trace_def run_body_def replay_def)

theorem short_series_no_effect_witness:
  "run_trace ''GLD'' None (Some (replicate 79 (flat 100))) = (Returned, [])
   \<and> run ''GLD'' fresh_world (Some (replicate 79 (flat 100))) = (Returned, fresh_world)"
  using short_series_no_effect [of "replicate 79 (flat 100)" "''GLD''" None fresh_world]
  by simp

text \<open>
  Claim C1. For a signal \<open>S\<close> and a day \<open>D\<close>, over any sequence of runs from any
  world, \<open>sendEmail\<close> is called at most once by the runs whose latest bar gives \<open>S\<close> on
  \<open>D\<close>. Such a run calls it once when the history file holds no entry for \<open>(S, D)\<close>
  and not at all when it holds one, and leaves the entry recorded; every later run with
  the same latest signal and day, whatever runs came in between, sends nothing and
  writes nothing to the history file.
\<close>

theorem notification_at_most_once:
  "sends_for (S, D) tick w fs \<le> 1
   \<and> (run_key f = Some (S, D) \<longrightarrow>
        length (filter is_send (snd (run_trace tick (historyFile w) f)))
          = (if ledger_has (historyFile w) (S @ ''-'' @ D) then 0 else 1)
        \<and> ledger_has (historyFile (snd (run tick w f))) (S @ ''-'' @ D))
   \<and> (run_key f = Some (S, D) \<and> run_key g = Some (S, D) \<longrightarrow>
        (let w' = runs tick (snd (run tick w f)) fs
         in filter is_send (snd (run_trace tick (historyFile w') g)) = []
            \<and> filter is_history_write (snd (run_trace tick (historyFile w') g)) = []
            \<and> historyFile (snd (run tick w' g)) = historyFile w'
            \<and> outbox (snd (run tick w' g)) = outbox w'))"
proof (intro conjI impI)
  show "sends_for (S, D) tick w fs \<le> 1" by (rule sends_for_le_1)
next
  assume "run_key f = Some (S, D)"
  then show "length (filter is_send (snd (run_trace tick (historyFile w) f)))
          = (if ledger_has (historyFile w) (S @ ''-'' @ D) then 0 else 1)"
    by (rule run_sends)
next
  assume "run_key f = Some (S, D)"
  then show "ledger_has (historyFile (snd (run tick w f))) (S @ ''-'' @ D)"
    by (rule run_records) simp
next
  assume a: "run_key f = Some (S, D) \<and> run_key g = Some (S, D)"
  define w' where "w' = runs tick (snd (run tick w f)) fs"
  have has: "ledger_has (historyFile w') (S @ ''-'' @ D)"
    unfolding w'_def using a by (intro runs_keep run_records [where hf = "historyFile w"]) simp_all
  have s: "filter is_send (snd (run_trace tick (historyFile w') g)) = []"
    using run_sends [of g S D tick "historyFile w'"] a has by simp
  have hw: "filter is_history_write (snd (run_trace tick (historyFile w') g)) = []"
    using a has by (intro run_history_writes) simp_all
  have no_hist: "fold hist_effect effs hf = hf" if "filter is_history_write effs = []"
    for effs hf using that
  proof (induction effs)
    case Nil
    show ?case by simp
  next
    case (Cons e effs)
    then show ?case by (cases e) (simp_all split: if_splits)
  qed
  have "historyFile (snd (run tick w' g)) = historyFile w'"
    using hw by (simp add: snd_run historyFile_replay no_hist)
  moreover have "outbox (snd (run tick w' g)) = outbox w'"
    using s by (simp add: snd_run outbox_replay)
  ultimately show "let w' = runs tick (snd (run tick w f)) fs
         in filter is_send (snd (run_trace tick (historyFile w') g)) = []
            \<and> filter is_history_write (snd (run_trace tick (historyFile w') g)) = []
            \<and> historyFile (snd (run tick w' g)) = historyFile w'
            \<and> outbox (snd (run tick w' g)) = outbox w'"
    using s hw by (simp add: w'_def Let_def)
qed

theorem notification_at_most_once_witness:
  "run_key (Some buy_series) = Some (''BUY'', ''2024-03-01'')
   \<and> sends_for (''BUY'', ''2024-03-01'') ''GLD'' fresh_world
        [Some buy_series, None, Some buy_series] \<le> 1
   \<and> length (filter is_send (snd (run_trace ''GLD'' (historyFile fresh_world) (Some buy_series)))) = 1
   \<and> ledger_has (historyFile (snd (run ''GLD'' fresh_world (Some buy_series)))) ''BUY-2024-03-01''
   \<and> filter is_send (snd (run_trace ''GLD''
          (historyFile (runs ''GLD'' (snd (run ''GLD'' fresh_world (Some buy_series))) [None]))
          (Some buy_series))) = []"
  using notification_at_most_once [of "''BUY''" "''2024-03-01''" "''GLD''" fresh_world
      "[Some buy_series, None, Some buy_series]" "Some buy_series" "Some buy_series"]
    notification_at_most_once [of "''BUY''" "''2024-03-01''" "''GLD''" fresh_world
      "[None]" "Some buy_series" "Some buy_series"]
  by (simp add: run_key_buy_series Let_def fresh_world_def ledger_has_def file_history_def has_key_def)

text \<open>
  Claim C7, as amended. In a run that fires a new signal the entry is written to the
  history file before \<open>sendEmail\<close> is called: the write of the entry is followed at once
  by the send, and nothing is sent before it. A crash between the two leaves the entry
  recorded and no mail sent, and the next run with the same signal and day sends none:
  the notification is lost, not sent twice.
\<close>

theorem ledger_recorded_before_send:
  assumes "run_key f = Some (S, D)"
    and "\<not> ledger_has (historyFile w) (S @ ''-'' @ D)"
    and "run_key g = Some (S, D)"
  shows "\<exists>n h price.
     Suc n < length (snd (run_trace tick (historyFile w) f))
     \<and> snd (run_trace tick (historyFile w) f) ! n = WriteHistory h
     \<and> has_key h (S @ ''-'' @ D)
     \<and> snd (run_trace tick (historyFile w) f) ! Suc n = SendEmail S tick price
     \<and> filter is_send (take (Suc n) (snd (run_trace tick (historyFile w) f))) = []
     \<and> historyFile (crashed_run (Suc n) tick w f) = Some h
     \<and> outbox (crashed_run (Suc n) tick w f) = outbox w
     \<and> filter is_send (snd (run_trace tick (historyFile (crashed_run (Suc n) tick w f)) g)) = []"
proof -
  from run_trace_key [OF assms(1), of tick "historyFile w"] obtain price d rest
    where S: "S \<noteq> []" and D: "day_of d = D"
      and t: "snd (run_trace tick (historyFile w) f)
                = snd (alert_step tick S d price (historyFile w)) @ rest" by blast
  have k: "S @ ''-'' @ D = alert_key S d" by (simp add: alert_key_def D)
  define h where "h = AList.update (alert_key S d) (JBool True) (file_history (historyFile w))"
  define pre where "pre = (case historyFile w of None \<Rightarrow> [WriteHistory []] | Some h0 \<Rightarrow> [])"
  have effs: "snd (run_trace tick (historyFile w) f)
                = pre @ [WriteHistory h, SendEmail S tick price] @ rest"
    using S assms(2) t k by (simp add: alert_step_miss h_def pre_def)
  have pre_send: "filter is_send pre = []"
    by (cases "historyFile w") (simp_all add: pre_def)
  have tk: "take (Suc (length pre)) (snd (run_trace tick (historyFile w) f)) = pre @ [WriteHistory h]"
    by (simp add: effs)
  have has: "has_key h (S @ ''-'' @ D)" unfolding k h_def by (rule has_key_update_True)
  have hist: "historyFile (crashed_run (Suc (length pre)) tick w f) = Some h"
    by (simp add: crashed_run_def tk historyFile_replay)
  have out: "outbox (crashed_run (Suc (length pre)) tick w f) = outbox w"
    by (simp add: crashed_run_def tk outbox_replay pre_send)
  have "ledger_has (Some h) (S @ ''-'' @ D)"
    using has by (simp add: ledger_has_def file_history_def)
  then have later: "filter is_send (snd (run_trace tick (Some h) g)) = []"
    using run_sends [OF assms(3), of tick "Some h"] by simp
  have "Suc (length pre) < length (snd (run_trace tick (historyFile w) f))"
    by (simp add: effs)
  moreover have "snd (run_trace tick (historyFile w) f) ! length pre = WriteHistory h"
    by (simp add: effs)
  moreover have "snd (run_trace tick (historyFile w) f) ! Suc (length pre) = SendEmail S tick price"
    by (simp add: effs nth_append)
  moreover have "filter is_send (take (Suc (length pre)) (snd (run_trace tick (historyFile w) f))) = []"
    by (simp add: tk pre_send)
  ultimately show ?thesis
    using has hist out later by (intro exI [of _ "length pre"] exI [of _ h] exI [of _ price]) simp
qed

text \<open>
  The claim as first stated has the send before the write. On the sample series the
  history file is written twice before the send, and a run stopped after these two
  writes has recorded the entry with an empty outbox; the run after it sends nothing.
\<close>

theorem send_after_ledger_write:
  "take 3 (snd (run_trace ''GLD'' (historyFile fresh_world) (Some buy_series)))
     = [WriteHistory [], WriteHistory [(''BUY-2024-03-01'', JBool True)],
        SendEmail ''BUY'' ''GLD'' (Fin 150)]
   \<and> historyFile (crashed_run 2 ''GLD'' fresh_world (Some buy_series))
       = Some [(''BUY-2024-03-01'', JBool True)]
   \<and> outbox (crashed_run 2 ''GLD'' fresh_world (Some buy_series)) = []
   \<and> filter is_send (snd (run_trace ''GLD'' (Some [(''BUY-2024-03-01'', JBool True)])
        (Some buy_series))) = []"
proof -
  from run_trace_buy_series obtain rest where
    t: "snd (run_trace ''GLD'' None (Some buy_series))
     = [WriteHistory [], WriteHistory [(''BUY-2024-03-01'', JBool True)],
        SendEmail ''BUY'' ''GLD'' (Fin 150)] @ rest" by blast
  have "filter is_send (snd (run_trace ''GLD'' (Some [(''BUY-2024-03-01'', JBool True)])
        (Some buy_series))) = []"
    using run_sends [OF run_key_buy_series, of "''GLD''" "Some [(''BUY-2024-03-01'', JBool True)]"]
    by (simp add: ledger_has_def file_history_def has_key_def)
  then show ?thesis
    by (simp add: t fresh_world_def crashed_run_def replay_def)
qed

theorem ledger_recorded_before_send_witness:
  "\<exists>n h price.
     Suc n < length (snd (run_trace ''GLD'' (historyFile fresh_world) (Some buy_series)))
     \<and> snd (run_trace ''GLD'' (historyFile fresh_world) (Some buy_series)) ! n = WriteHistory h
     \<and> has_key h (''BUY'' @ ''-'' @ ''2024-03-01'')
     \<and> snd (run_trace ''GLD'' (historyFile fresh_world) (Some buy_series)) ! Suc n
         = SendEmail ''BUY'' ''GLD'' price
     \<and> filter is_send (take (Suc n) (snd (run_trace ''GLD'' (historyFile fresh_world) (Some buy_series)))) = []
     \<and> historyFile (crashed_run (Suc n) ''GLD'' fresh_world (Some buy_series)) = Some h
     \<and> outbox (crashed_run (Suc n) ''GLD'' fresh_world (Some buy_series)) = outbox fresh_world
     \<and> filter is_send (snd (run_trace ''GLD''
          (historyFile (crashed_run (Suc n) ''GLD'' fresh_world (Some buy_series)))
          (Some buy_series))) = []"
proof -
  have "\<not> ledger_has (historyFile fresh_world) (''BUY'' @ ''-'' @ ''2024-03-01'')"
    by (simp add: fresh_world_def ledger_has_def file_history_def has_key_def)
  from ledger_recorded_before_send [OF run_key_buy_series this run_key_buy_series]
  show ?thesis .
qed

section \<open>The trailing window\<close>

text \<open>\<open>x || null\<close> is \<open>null\<close> for a missing tuple, and also for a component that is zero or \<open>NaN\<close>.\<close>

lemma or_null_None_iff:
  "(or_null (map_option sel ind) = None)
     = (ind = None \<or> (\<exists>t. ind = Some t \<and> (sel t = Fin 0 \<or> sel t = NaN)))"
proof (cases ind)
  case None
  then show ?thesis by (simp add: or_null_def)
next
  case (Some t)
  then show ?thesis by (cases "sel t") (simp_all add: or_null_def)
qed

lemma display_entry_zero_series:
  assumes "i < 40"
  shows "display_entry zero_series (flat 0) i = Some null_entry"
proof (cases "int (length zero_series) - 40 + int i < 77")
  case True
  then have "getIchimokuAt zero_series (int (length zero_series) - 40 + int i) = None"
    by (simp add: getIchimokuAt_def)
  then show ?thesis
    by (simp add: display_entry_def flat_def day_of_sample null_entry_def or_null_def)
next
  case False
  moreover have "length zero_series = 80" by (simp add: zero_series_def)
  ultimately have "getIchimokuAt zero_series (int (length zero_series) - 40 + int i)
          = Some \<lparr>tenkan = Fin 0, kijun = Fin 0, spanA = Fin 0, spanB = Fin 0\<rparr>"
    using assms by (intro getIchimokuAt_zero_series) simp_all
  then show ?thesis
    by (simp add: display_entry_def flat_def day_of_sample null_entry_def or_null_def)
qed

lemma displayHistory_zero_series: "displayHistory zero_series = Some (replicate 40 null_entry)"
proof -
  have sl: "slice zero_series (- 40) (int (length zero_series)) = replicate 40 (flat 0)"
    by (simp add: slice_def zero_series_def)
  have "map_throwing (\<lambda>(d, i). display_entry zero_series d i)
          (zip (replicate 40 (flat 0)) [0 ..< 40])
        = Some (map (\<lambda>x. null_entry) (zip (replicate 40 (flat 0)) [0 ..< 40]))"
    by (rule map_throwing_total) (auto simp: set_zip display_entry_zero_series)
  then show ?thesis
    by (simp add: displayHistory_def sl map_replicate_const)
qed

text \<open>
  Claim C9. The claim has a field of the trailing window \<open>null\<close> only when the tuple
  at its index is undefined, a zero component being written as a number. On 80 bars at
  zero the tuple at the last index is defined with four zero components; the run writes
  them as zeros under \<open>ichimoku\<close> and as \<open>null\<close> in the last entry of \<open>history\<close>.
\<close>

theorem zero_indicator_published_as_null:
  "run_trace ''GLD'' None (Some zero_series)
     = (Returned,
        [WriteWebsite
          \<lparr> s_ticker = ''GLD'', s_price = Fin 0, s_date = ''2024-03-01T00:00:00.000Z'',
            s_signal = ''NEUTRAL'', signalHistory = [],
            s_ichimoku = \<lparr> o_tenkan = Fin 0, o_kijun = Fin 0, senkouA = Fin 0, senkouB = Fin 0 \<rparr>,
            s_history = replicate 40 null_entry \<rparr>])
   \<and> getIchimokuAt zero_series (int (length zero_series) - 40 + 39)
       = Some \<lparr>tenkan = Fin 0, kijun = Fin 0, spanA = Fin 0, spanB = Fin 0\<rparr>
   \<and> h_tenkan (replicate 40 null_entry ! 39) = None
   \<and> h_kijun (replicate 40 null_entry ! 39) = None
   \<and> h_spanA (replicate 40 null_entry ! 39) = None
   \<and> h_spanB (replicate 40 null_entry ! 39) = None"
proof -
  have len: "length zero_series = 80" by (simp add: zero_series_def)
  have last: "zero_series ! 79 = flat 0" by (simp add: zero_series_def)
  have l: "latest zero_series = Some ([], Fin 0, ''2024-03-01T00:00:00.000Z'',
     \<lparr>tenkan = Fin 0, kijun = Fin 0, spanA = Fin 0, spanB = Fin 0\<rparr>)"
    using getIchimokuAt_zero_series [of 79]
    by (simp add: latest_def len last flat_def evaluate_signal_def js_lt_def Let_def)
  have 1: "run_trace ''GLD'' None (Some zero_series)
     = (Returned,
        [WriteWebsite
          \<lparr> s_ticker = ''GLD'', s_price = Fin 0, s_date = ''2024-03-01T00:00:00.000Z'',
            s_signal = ''NEUTRAL'', signalHistory = [],
            s_ichimoku = \<lparr> o_tenkan = Fin 0, o_kijun = Fin 0, senkouA = Fin 0, senkouB = Fin 0 \<rparr>,
            s_history = replicate 40 null_entry \<rparr>])"
    by (simp add: run_trace_def run_body_def len l alert_step_def displayHistory_zero_series
        or_NEUTRAL_def signalsArray_def)
  have 2: "getIchimokuAt zero_series (int (length zero_series) - 40 + 39)
       = Some \<lparr>tenkan = Fin 0, kijun = Fin 0, spanA = Fin 0, spanB = Fin 0\<rparr>"
    using getIchimokuAt_zero_series [of 79] by (simp add: len)
  from 1 2 show ?thesis by (simp add: null_entry_def)
qed


end
